theory Spec2Isabelle
  imports Main "HOL-Library.AList"
begin

section \<open>Text: Python strings as lists of code points\<close>

text \<open>
  A Python \<open>str\<close> is a sequence of Unicode code points; the header of the export files
  contains U+0142, so a character is a natural number here and a string a list of them.
\<close>

type_synonym ustr = "nat list"

definition ascii :: "string \<Rightarrow> ustr" where
  "ascii s = map of_char s"

definition TAB :: nat where "TAB = 9"
definition NEWLINE :: nat where "NEWLINE = 10"
definition SPACE :: nat where "SPACE = 32"
definition QUOTE :: nat where "QUOTE = 34"

text \<open>
  The characters that \<open>str.strip()\<close> removes and that \<open>\s\<close> matches in a \<open>str\<close> pattern:
  both use the interpreter's one whitespace test on code points.
\<close>

definition isspace :: "nat \<Rightarrow> bool" where
  "isspace c \<longleftrightarrow>
     (9 \<le> c \<and> c \<le> 13) \<or> (28 \<le> c \<and> c \<le> 32) \<or> c = 133 \<or> c = 160 \<or> c = 5760 \<or>
     (8192 \<le> c \<and> c \<le> 8202) \<or> c = 8232 \<or> c = 8233 \<or> c = 8239 \<or> c = 8287 \<or> c = 12288"

text \<open>\<open>line.strip()\<close>: leading and trailing whitespace removed.\<close>

definition strip :: "ustr \<Rightarrow> ustr" where
  "strip s = rev (dropWhile isspace (rev (dropWhile isspace s)))"

text \<open>\<open>re.sub(r"\s+", "", s)\<close>: every run of whitespace deleted.\<close>

definition re_sub_ws :: "ustr \<Rightarrow> ustr" where
  "re_sub_ws s = filter (\<lambda>c. \<not> isspace c) s"

text \<open>\<open>field.replace('"', '')\<close>.\<close>

definition replace_quote :: "ustr \<Rightarrow> ustr" where
  "replace_quote s = filter (\<lambda>c. c \<noteq> QUOTE) s"

text \<open>
  \<open>re.split(r'\t| {2,}', s)\<close>. The scan goes left to right; at a tab the first alternative
  matches that one character, at a space followed by a space the second alternative takes
  the whole run of spaces (the quantifier is greedy), any other character joins the current
  field. Every match is non-empty, and the pieces between matches are the result, the piece
  after the last match included. \<open>cur\<close> is the field read so far.
\<close>

function re_split_from :: "ustr \<Rightarrow> ustr \<Rightarrow> ustr list" where
  "re_split_from cur [] = [cur]"
| "re_split_from cur (c # cs) =
     (if c = TAB then cur # re_split_from [] cs
      else if c = SPACE \<and> cs \<noteq> [] \<and> hd cs = SPACE
        then cur # re_split_from [] (dropWhile (\<lambda>d. d = SPACE) cs)
      else re_split_from (cur @ [c]) cs)"
  by pat_completeness auto
termination
  by (relation "measure (\<lambda>(cur, s). length s)")
     (auto simp: less_Suc_eq_le length_dropWhile_le)

definition re_split :: "ustr \<Rightarrow> ustr list" where
  "re_split s = re_split_from [] s"

text \<open>\<open>s.split("\t")\<close>: the pieces between tabs; an empty string gives one empty piece.\<close>

fun split_tab_from :: "ustr \<Rightarrow> ustr \<Rightarrow> ustr list" where
  "split_tab_from cur [] = [cur]"
| "split_tab_from cur (c # cs) =
     (if c = TAB then cur # split_tab_from [] cs else split_tab_from (cur @ [c]) cs)"

definition split_tab :: "ustr \<Rightarrow> ustr list" where
  "split_tab s = split_tab_from [] s"

text \<open>\<open>"\t".join(fields)\<close>.\<close>

fun join_tab :: "ustr list \<Rightarrow> ustr" where
  "join_tab [] = []"
| "join_tab [f] = f"
| "join_tab (f # g # fs) = f @ TAB # join_tab (g # fs)"

text \<open>The header literal of both tools, the five labels \<open>Kod\<close>, \<open>Nazwisko\<close>,
  \<open>Imie\<close>, \<open>Dzial\<close> (its last letter is U+0142, the l with stroke) and \<open>Zatrudnienie\<close>, separated by tabs.\<close>

definition header_literal :: ustr where
  "header_literal =
     ascii ''Kod'' @ [TAB] @ ascii ''Nazwisko'' @ [TAB] @ ascii ''Imie'' @ [TAB] @
     ascii ''Dzia'' @ [322] @ [TAB] @ ascii ''Zatrudnienie''"

section \<open>The converter: \<open>01_converter_utf16_to_utf8.py\<close>\<close>

text \<open>
  \<open>process_file_content\<close> returns the cleaned lines, the skipped lines and the table; the
  table is the list of the rows added to it. The loop is a recursion over the lines that
  carries the three lists.
\<close>

type_synonym converted = "ustr list \<times> ustr list \<times> ustr list list"

fun process_lines :: "converted \<Rightarrow> ustr list \<Rightarrow> ustr \<Rightarrow> converted" where
  "process_lines acc [] expected_header = acc"
| "process_lines (cleaned_content, skipped_lines, table) (line # content) expected_header =
     (let line_cleaned = strip line in
      if re_sub_ws line_cleaned = re_sub_ws expected_header
        then process_lines (cleaned_content, skipped_lines @ [line_cleaned], table)
               content expected_header
      else
        let fields = map replace_quote (re_split line_cleaned) in
        if length fields = 5
          then process_lines
                 (cleaned_content @ [join_tab fields @ [NEWLINE]], skipped_lines, table @ [fields])
                 content expected_header
        else process_lines (cleaned_content, skipped_lines @ [line_cleaned], table)
               content expected_header)"

definition process_file_content :: "ustr list \<Rightarrow> ustr \<Rightarrow> converted" where
  "process_file_content content expected_header = process_lines ([], [], []) content expected_header"

definition cleaned_of :: "converted \<Rightarrow> ustr list" where
  "cleaned_of r = fst r"

definition skipped_of :: "converted \<Rightarrow> ustr list" where
  "skipped_of r = fst (snd r)"

definition table_of :: "converted \<Rightarrow> ustr list list" where
  "table_of r = snd (snd r)"

section \<open>The comparison tool: \<open>02_compare_two_txt_files.py\<close>\<close>

text \<open>
  A Python \<open>dict\<close> keeps its keys in insertion order and \<open>data[kod] = v\<close> replaces the value
  of a key already present where it stands: an association list under \<open>AList.update\<close>.
  \<open>read_file\<close> returns the dictionary and the skipped lines; its loop carries both.
\<close>

type_synonym record_set = "(ustr \<times> ustr list) list"

fun read_lines :: "record_set \<times> ustr list \<Rightarrow> ustr list \<Rightarrow> record_set \<times> ustr list" where
  "read_lines acc [] = acc"
| "read_lines (data, skipped_lines) (line # content) =
     (if strip line = header_literal
        then read_lines (data, skipped_lines @ [strip line]) content
      else
        let fields = split_tab (strip line) in
        if length fields = 5
          then read_lines
                 (AList.update (fields ! 0) [fields ! 1, fields ! 2, fields ! 3, fields ! 4] data,
                  skipped_lines)
                 content
        else read_lines (data, skipped_lines @ [strip line]) content)"

definition read_content :: "ustr list \<Rightarrow> record_set \<times> ustr list" where
  "read_content content = read_lines ([], []) content"

section \<open>Exceptions, log records and the files a run meets\<close>

text \<open>
  The exception classes the two tools tell apart. \<open>FileNotFoundError\<close> is a subclass of
  \<open>OSError\<close> and \<open>UnicodeDecodeError\<close> one of \<open>ValueError\<close>, which decides the
  \<open>except\<close> clause that catches them.
\<close>

datatype exn = FileNotFoundError | ValueError | UnicodeDecodeError | OSError | KeyError | OtherException

definition isa_ValueError :: "exn \<Rightarrow> bool" where
  "isa_ValueError e \<longleftrightarrow> e = ValueError \<or> e = UnicodeDecodeError"

definition isa_OSError :: "exn \<Rightarrow> bool" where
  "isa_OSError e \<longleftrightarrow> e = OSError \<or> e = FileNotFoundError"

datatype level = DEBUG | INFO | WARNING | ERROR | CRITICAL

datatype message =
    Raised exn
  | FileOpened
  | NotUtf16
  | LinesRead nat
  | OutputSaved
  | WriteFailed exn
  | CountsDiffer nat nat
  | NotSavedHeading
  | NotSaved nat ustr
  | FileOperationFailed exn
  | Unexpected exn
  | DetectFailed exn
  | EncodingDetected string
  | ReadFailed exn
  | FileRead nat
  | SkippedCount nat nat
  | Finished

type_synonym log = "(level \<times> message) list"

text \<open>
  \<open>configure_logging\<close> sets the threshold to \<open>DEBUG\<close> when verbose and to \<open>INFO\<close>
  otherwise: the records that reach the log.
\<close>

definition configure_logging :: "bool \<Rightarrow> log \<Rightarrow> log" where
  "configure_logging verbose records = filter (\<lambda>r. verbose \<or> fst r \<noteq> DEBUG) records"

text \<open>
  What a run finds at a path: whether it exists, what \<open>os.path.getsize\<close> gives, what the
  encoding detection gives (an exception, nothing, or the name of an encoding) and what
  opening the file and \<open>readlines()\<close> give in the encoding in use.
\<close>

record input_file =
  path_exists :: bool
  path_getsize :: "exn + nat"
  best_encoding :: "exn + string option"
  readlines :: "exn + ustr list"

definition validate_file :: "input_file \<Rightarrow> exn + unit" where
  "validate_file f =
     (if \<not> path_exists f then Inl FileNotFoundError
      else case path_getsize f of
             Inl e \<Rightarrow> Inl e
           | Inr n \<Rightarrow> if n = 0 then Inl ValueError else Inr ())"

section \<open>The converter's run\<close>

record conversion =
  conv_log :: log
  output_file :: "ustr list option"
  console :: "ustr list list option"

text \<open>The three outer \<open>except\<close> clauses of \<open>convert_to_utf8\<close>, in their order.\<close>

definition conversion_handlers :: "exn \<Rightarrow> log" where
  "conversion_handlers e =
     (if e = FileNotFoundError \<or> isa_ValueError e then [(ERROR, Raised e)]
      else if isa_OSError e then [(ERROR, FileOperationFailed e)]
      else [(CRITICAL, Unexpected e)])"

text \<open>The numbered debug records of the lines that were not written.\<close>

fun not_saved_from :: "nat \<Rightarrow> ustr list \<Rightarrow> log" where
  "not_saved_from idx [] = []"
| "not_saved_from idx (skipped # rest) = (DEBUG, NotSaved idx skipped) # not_saved_from (Suc idx) rest"

text \<open>
  \<open>convert_to_utf8\<close>: \<open>write_error\<close> is what writing the output file raises, if anything.
\<close>

definition convert_to_utf8 :: "input_file \<Rightarrow> exn option \<Rightarrow> bool \<Rightarrow> bool \<Rightarrow> conversion" where
  "convert_to_utf8 f write_error verbose show_table =
     (case validate_file f of
        Inl e \<Rightarrow>
          \<lparr>conv_log = configure_logging verbose (conversion_handlers e),
           output_file = None, console = None\<rparr>
      | Inr _ \<Rightarrow>
        (case readlines f of
           Inl e \<Rightarrow>
             \<lparr>conv_log = configure_logging verbose
                (if e = UnicodeDecodeError then [(ERROR, NotUtf16)] else conversion_handlers e),
              output_file = None, console = None\<rparr>
         | Inr content \<Rightarrow>
           (let expected_header = strip header_literal;
                (cleaned_content, skipped_lines, table) =
                   process_file_content content expected_header;
                read_log = [(INFO, FileOpened), (DEBUG, LinesRead (length content))]
            in case write_error of
                 Some e \<Rightarrow>
                   \<lparr>conv_log = configure_logging verbose
                      (read_log @
                       (if isa_OSError e then [(ERROR, WriteFailed e)] else conversion_handlers e)),
                    output_file = None, console = None\<rparr>
               | None \<Rightarrow>
                   \<lparr>conv_log = configure_logging verbose
                      (read_log @ [(INFO, OutputSaved)] @
                       (if length content \<noteq> length cleaned_content
                          then [(WARNING, CountsDiffer (length content) (length cleaned_content)),
                                (DEBUG, NotSavedHeading)] @ not_saved_from 1 skipped_lines
                        else [])),
                    output_file = Some cleaned_content,
                    console = (if show_table then Some table else None)\<rparr>)))"

section \<open>The comparison\<close>

text \<open>
  \<open>set(content.keys())\<close> holds each key once. The order in which a Python set is iterated
  is not fixed by the language; the lists below take the order of the dictionary, and the
  theorems about them speak of membership and multiplicity only.
\<close>

definition key_set :: "record_set \<Rightarrow> ustr list" where
  "key_set content = remdups (map fst content)"

definition set_minus :: "ustr list \<Rightarrow> ustr list \<Rightarrow> ustr list" where
  "set_minus s t = filter (\<lambda>k. k \<notin> set t) s"

definition set_inter :: "ustr list \<Rightarrow> ustr list \<Rightarrow> ustr list" where
  "set_inter s t = filter (\<lambda>k. k \<in> set t) s"

text \<open>\<open>content[kod]\<close> raises \<open>KeyError\<close> at a key that is absent.\<close>

definition getitem :: "record_set \<Rightarrow> ustr \<Rightarrow> exn + ustr list" where
  "getitem content kod = (case map_of content kod of None \<Rightarrow> Inl KeyError | Some v \<Rightarrow> Inr v)"

type_synonym diff_row = "ustr \<times> ustr list \<times> bool"

text \<open>\<open>[(kod, content[kod], flag) for kod in keys]\<close>.\<close>

fun rows_for :: "record_set \<Rightarrow> bool \<Rightarrow> ustr list \<Rightarrow> exn + diff_row list" where
  "rows_for content flag [] = Inr []"
| "rows_for content flag (kod # keys) =
     (case getitem content kod of
        Inl e \<Rightarrow> Inl e
      | Inr v \<Rightarrow>
        (case rows_for content flag keys of
           Inl e \<Rightarrow> Inl e
         | Inr rows \<Rightarrow> Inr ((kod, v, flag) # rows)))"

text \<open>
  \<open>[(kod, content1[kod], True) for kod in keys if content1[kod] != content2[kod]]\<close>; the
  dictionaries do not change in between, so the second reading of \<open>content1[kod]\<close> is the
  first.
\<close>

fun modified_for :: "record_set \<Rightarrow> record_set \<Rightarrow> ustr list \<Rightarrow> exn + diff_row list" where
  "modified_for content1 content2 [] = Inr []"
| "modified_for content1 content2 (kod # keys) =
     (case getitem content1 kod of
        Inl e \<Rightarrow> Inl e
      | Inr v1 \<Rightarrow>
        (case getitem content2 kod of
           Inl e \<Rightarrow> Inl e
         | Inr v2 \<Rightarrow>
           (case modified_for content1 content2 keys of
              Inl e \<Rightarrow> Inl e
            | Inr rows \<Rightarrow> Inr (if v1 \<noteq> v2 then (kod, v1, True) # rows else rows))))"

definition find_differences ::
  "record_set \<Rightarrow> record_set \<Rightarrow> exn + (diff_row list \<times> diff_row list \<times> diff_row list)" where
  "find_differences content1 content2 =
     (let set1 = key_set content1; set2 = key_set content2 in
      case rows_for content1 False (set_minus set1 set2) of
        Inl e \<Rightarrow> Inl e
      | Inr unique_to_file1 \<Rightarrow>
        (case rows_for content2 True (set_minus set2 set1) of
           Inl e \<Rightarrow> Inl e
         | Inr unique_to_file2 \<Rightarrow>
           (case modified_for content1 content2 (set_inter set1 set2) of
              Inl e \<Rightarrow> Inl e
            | Inr modified_rows \<Rightarrow> Inr (unique_to_file1, unique_to_file2, modified_rows))))"

definition keys_of :: "diff_row list \<Rightarrow> ustr set" where
  "keys_of rows = fst ` set rows"

section \<open>The comparison's run\<close>

text \<open>
  \<open>detect_encoding\<close> logs and raises again whatever the detection raises, and raises
  \<open>ValueError\<close> when no encoding is found.
\<close>

definition detect_encoding :: "input_file \<Rightarrow> (exn + string) \<times> log" where
  "detect_encoding f =
     (case best_encoding f of
        Inl e \<Rightarrow> (Inl e, [(ERROR, DetectFailed e)])
      | Inr None \<Rightarrow> (Inl ValueError, [(ERROR, DetectFailed ValueError)])
      | Inr (Some encoding) \<Rightarrow> (Inr encoding, []))"

text \<open>
  \<open>read_file\<close>: every exception of the detection, of the opening and of the decoding is
  caught by its \<open>except Exception\<close>, logged as an error and answered with an empty
  dictionary and no skipped lines.
\<close>

definition read_file :: "input_file \<Rightarrow> (record_set \<times> ustr list) \<times> log" where
  "read_file f =
     (case detect_encoding f of
        (Inl e, detect_log) \<Rightarrow> (([], []), detect_log @ [(ERROR, ReadFailed e)])
      | (Inr encoding, detect_log) \<Rightarrow>
        (case readlines f of
           Inl e \<Rightarrow>
             (([], []), detect_log @ [(INFO, EncodingDetected encoding), (ERROR, ReadFailed e)])
         | Inr content \<Rightarrow>
             (read_content content, detect_log @ [(INFO, EncodingDetected encoding)])))"

datatype table_title = Unique_File1 | Unique_File2 | Modified_Rows

record comparison =
  cmp_log :: log
  tables :: "(table_title \<times> diff_row list) list"
  exit_code :: "nat option"

text \<open>
  The two \<open>except\<close> clauses of \<open>compare_files\<close>; both end in \<open>sys.exit(1)\<close>. \<open>so_far\<close>
  are the records logged before the exception.
\<close>

definition comparison_handlers :: "bool \<Rightarrow> log \<Rightarrow> exn \<Rightarrow> comparison" where
  "comparison_handlers verbose so_far e =
     \<lparr>cmp_log = configure_logging verbose
        (so_far @
         [if e = FileNotFoundError \<or> isa_ValueError e then (ERROR, Raised e)
          else (CRITICAL, Unexpected e)]),
      tables = [], exit_code = Some 1\<rparr>"

definition compare_files :: "input_file \<Rightarrow> input_file \<Rightarrow> bool \<Rightarrow> bool \<Rightarrow> comparison" where
  "compare_files file1 file2 verbose show_tables =
     (case validate_file file1 of
        Inl e \<Rightarrow> comparison_handlers verbose [] e
      | Inr _ \<Rightarrow>
        (case validate_file file2 of
           Inl e \<Rightarrow> comparison_handlers verbose [] e
         | Inr _ \<Rightarrow>
           (let ((content1, skipped1), log1) = read_file file1;
                ((content2, skipped2), log2) = read_file file2;
                read_log = log1 @ log2 @
                  [(INFO, FileRead 1), (INFO, FileRead 2),
                   (DEBUG, SkippedCount 1 (length skipped1)),
                   (DEBUG, SkippedCount 2 (length skipped2))]
            in case find_differences content1 content2 of
                 Inl e \<Rightarrow> comparison_handlers verbose read_log e
               | Inr (unique_to_file1, unique_to_file2, modified_rows) \<Rightarrow>
                   \<lparr>cmp_log = configure_logging verbose (read_log @ [(INFO, Finished)]),
                    tables =
                      (if show_tables
                         then (if unique_to_file1 \<noteq> [] then [(Unique_File1, unique_to_file1)] else []) @
                              (if unique_to_file2 \<noteq> [] then [(Unique_File2, unique_to_file2)] else []) @
                              (if modified_rows \<noteq> [] then [(Modified_Rows, modified_rows)] else [])
                       else []),
                    exit_code = None\<rparr>)))"

section \<open>Rows that survive a second pass\<close>

text \<open>
  Two predicates on the converter's rows, used to say when its output can be read again: a
  string with two spaces in a row, and a row that the converter's own reading gives back
  from its output line.
\<close>

fun double_space :: "ustr \<Rightarrow> bool" where
  "double_space (a # b # s) = ((a = SPACE \<and> b = SPACE) \<or> double_space (b # s))"
| "double_space s = False"

definition stable_row :: "ustr \<Rightarrow> ustr list \<Rightarrow> bool" where
  "stable_row expected_header row \<longleftrightarrow>
     row \<noteq> [] \<and>
     hd row \<noteq> [] \<and> \<not> isspace (hd (hd row)) \<and>
     last row \<noteq> [] \<and> \<not> isspace (last (last row)) \<and>
     list_all (\<lambda>field. \<not> double_space field) row \<and>
     re_sub_ws (join_tab row) \<noteq> re_sub_ws expected_header"

section \<open>Evaluation\<close>

lemmas text_defs = ascii_def TAB_def NEWLINE_def SPACE_def QUOTE_def isspace_def strip_def
  re_sub_ws_def replace_quote_def re_split_def split_tab_def header_literal_def

lemmas loop_defs = process_file_content_def read_content_def cleaned_of_def skipped_of_def
  table_of_def Let_def


lemmas diff_defs = find_differences_def key_set_def set_minus_def set_inter_def getitem_def
  keys_of_def Let_def

section \<open>The converter's loop, line by line\<close>

lemma process_lines_acc:
  "process_lines (c, s, t) xs h =
     (c @ cleaned_of (process_file_content xs h),
      s @ skipped_of (process_file_content xs h),
      t @ table_of (process_file_content xs h))"
proof (induction xs arbitrary: c s t)
  case Nil
  show ?case by (simp add: process_file_content_def cleaned_of_def skipped_of_def table_of_def Let_def)
next
  case (Cons l ls)
  let ?f = "map replace_quote (re_split (strip l))"
  consider (hdr) "re_sub_ws (strip l) = re_sub_ws h"
    | (row) "re_sub_ws (strip l) \<noteq> re_sub_ws h" "length ?f = 5"
    | (bad) "re_sub_ws (strip l) \<noteq> re_sub_ws h" "length ?f \<noteq> 5"
    by blast
  then show ?case
  proof cases
    case hdr
    then show ?thesis
      using Cons.IH [of c "s @ [strip l]" t] Cons.IH [of "[]" "[strip l]" "[]"]
      by (simp add: process_file_content_def cleaned_of_def skipped_of_def table_of_def Let_def)
  next
    case row
    then show ?thesis
      using Cons.IH [of "c @ [join_tab ?f @ [NEWLINE]]" s "t @ [?f]"]
        Cons.IH [of "[join_tab ?f @ [NEWLINE]]" "[]" "[?f]"]
      by (simp add: process_file_content_def cleaned_of_def skipped_of_def table_of_def Let_def)
  next
    case bad
    then show ?thesis
      using Cons.IH [of c "s @ [strip l]" t] Cons.IH [of "[]" "[strip l]" "[]"]
      by (simp add: process_file_content_def cleaned_of_def skipped_of_def table_of_def Let_def)
  qed
qed

lemma process_lines_append:
  "process_lines acc (xs @ ys) h = process_lines (process_lines acc xs h) ys h"
proof (induction xs arbitrary: acc)
  case Nil show ?case by simp
next
  case (Cons l ls)
  obtain c s t where acc: "acc = (c, s, t)" by (cases acc) auto
  show ?case unfolding acc by (simp add: Cons.IH Let_def)
qed

lemma process_file_content_append:
  "process_file_content (xs @ ys) h =
     (cleaned_of (process_file_content xs h) @ cleaned_of (process_file_content ys h),
      skipped_of (process_file_content xs h) @ skipped_of (process_file_content ys h),
      table_of (process_file_content xs h) @ table_of (process_file_content ys h))"
proof -
  have "process_file_content (xs @ ys) h = process_lines (process_file_content xs h) ys h"
    by (simp add: process_file_content_def process_lines_append)
  also have "\<dots> = process_lines (cleaned_of (process_file_content xs h),
      skipped_of (process_file_content xs h), table_of (process_file_content xs h)) ys h"
    by (simp add: cleaned_of_def skipped_of_def table_of_def)
  finally show ?thesis by (simp add: process_lines_acc)
qed

lemma process_file_content_Nil: "process_file_content [] h = ([], [], [])"
  by (simp add: process_file_content_def)

lemma process_header_line:
  "re_sub_ws (strip l) = re_sub_ws h \<Longrightarrow> process_file_content [l] h = ([], [strip l], [])"
  by (simp add: process_file_content_def)

lemma process_row_line:
  "re_sub_ws (strip l) \<noteq> re_sub_ws h \<Longrightarrow> length (re_split (strip l)) = 5 \<Longrightarrow>
     process_file_content [l] h =
       ([join_tab (map replace_quote (re_split (strip l))) @ [NEWLINE]], [],
        [map replace_quote (re_split (strip l))])"
  by (simp add: process_file_content_def Let_def)

lemma process_bad_line:
  "re_sub_ws (strip l) \<noteq> re_sub_ws h \<Longrightarrow> length (re_split (strip l)) \<noteq> 5 \<Longrightarrow>
     process_file_content [l] h = ([], [strip l], [])"
  by (simp add: process_file_content_def Let_def)

lemma process_file_content_Cons:
  "process_file_content (l # ys) h =
     (cleaned_of (process_file_content [l] h) @ cleaned_of (process_file_content ys h),
      skipped_of (process_file_content [l] h) @ skipped_of (process_file_content ys h),
      table_of (process_file_content [l] h) @ table_of (process_file_content ys h))"
  using process_file_content_append [of "[l]" ys h] by simp

lemma process_file_content_insert:
  "process_file_content (xs @ l # ys) h =
     (cleaned_of (process_file_content xs h) @ cleaned_of (process_file_content [l] h) @
        cleaned_of (process_file_content ys h),
      skipped_of (process_file_content xs h) @ skipped_of (process_file_content [l] h) @
        skipped_of (process_file_content ys h),
      table_of (process_file_content xs h) @ table_of (process_file_content [l] h) @
        table_of (process_file_content ys h))"
  by (simp add: process_file_content_append [of xs "l # ys" h]
      process_file_content_Cons [of l ys h] cleaned_of_def skipped_of_def table_of_def)


section \<open>The comparison tool's loop, line by line\<close>

lemma read_lines_append:
  "read_lines acc (xs @ ys) = read_lines (read_lines acc xs) ys"
proof (induction xs arbitrary: acc)
  case Nil show ?case by simp
next
  case (Cons l ls)
  obtain d s where acc: "acc = (d, s)" by (cases acc)
  show ?case unfolding acc by (simp add: Cons.IH Let_def)
qed

lemma read_lines_data_indep:
  "fst (read_lines (d, s) xs) = fst (read_lines (d, s') xs)"
proof (induction xs arbitrary: d s s')
  case Nil
  show ?case by simp
next
  case (Cons l ls)
  show ?case by (auto simp: Let_def intro: Cons.IH)
qed

lemma read_lines_data: "fst (read_lines (d, s) xs) = fst (read_lines (d, []) xs)"
  by (rule read_lines_data_indep)

lemma read_lines_skipped_gen:
  "snd (read_lines (d, s @ t) xs) = s @ snd (read_lines (d', t) xs)"
proof (induction xs arbitrary: d d' s t)
  case Nil
  show ?case by simp
next
  case (Cons l ls)
  show ?case by (auto simp: Let_def intro: Cons.IH)
qed

lemma read_lines_skipped:
  "snd (read_lines (d, s) xs) = s @ snd (read_content xs)"
  using read_lines_skipped_gen [of d s "[]" xs "[]"] by (simp add: read_content_def)

lemma read_skipped_line:
  "strip l = header_literal \<or> length (split_tab (strip l)) \<noteq> 5 \<Longrightarrow>
     read_lines (d, s) [l] = (d, s @ [strip l])"
  by (auto simp: Let_def)

lemma read_row_line:
  "strip l \<noteq> header_literal \<Longrightarrow> split_tab (strip l) = [kod, f1, f2, f3, f4] \<Longrightarrow>
     read_lines (d, s) [l] = (AList.update kod [f1, f2, f3, f4] d, s)"
  by (simp add: Let_def)

lemma read_content_skip:
  assumes "strip l = header_literal \<or> length (split_tab (strip l)) \<noteq> 5"
  shows "fst (read_content (xs @ l # ys)) = fst (read_content (xs @ ys))"
    and "snd (read_content (xs @ l # ys)) =
           snd (read_content xs) @ [strip l] @ snd (read_content ys)"
proof -
  obtain d s where xs: "read_content xs = (d, s)" by (cases "read_content xs")
  have 1: "read_content (xs @ l # ys) = read_lines (d, s @ [strip l]) ys"
    using read_lines_append [of "([], [])" xs "[l] @ ys"] read_lines_append [of "(d, s)" "[l]" ys]
      xs read_skipped_line [OF assms, of d s]
    by (simp add: read_content_def)
  have 2: "read_content (xs @ ys) = read_lines (d, s) ys"
    using read_lines_append [of "([], [])" xs ys] xs by (simp add: read_content_def)
  show "fst (read_content (xs @ l # ys)) = fst (read_content (xs @ ys))"
    unfolding 1 2 using read_lines_data [of d "s @ [strip l]" ys] read_lines_data [of d s ys]
    by simp
  show "snd (read_content (xs @ l # ys)) =
           snd (read_content xs) @ [strip l] @ snd (read_content ys)"
    unfolding 1 xs by (simp add: read_lines_skipped)
qed

section \<open>The comparison never raises\<close>

lemma getitem_present:
  "k \<in> fst ` set d \<Longrightarrow> \<exists>v. map_of d k = Some v \<and> getitem d k = Inr v"
  by (cases "map_of d k") (auto simp: getitem_def map_of_eq_None_iff)

lemma getitem_eq_iff:
  "getitem c1 k = getitem c2 k \<longleftrightarrow> map_of c1 k = map_of c2 k"
  by (auto simp: getitem_def split: option.splits)

lemma rows_for_total:
  "set ks \<subseteq> fst ` set d \<Longrightarrow>
     rows_for d flag ks = Inr (map (\<lambda>k. (k, the (map_of d k), flag)) ks)"
proof (induction ks)
  case Nil
  show ?case by simp
next
  case (Cons k ks)
  from Cons.prems obtain v where "map_of d k = Some v" "getitem d k = Inr v"
    using getitem_present [of k d] by auto
  with Cons show ?case by simp
qed

lemma modified_for_total:
  "set ks \<subseteq> fst ` set c1 \<Longrightarrow> set ks \<subseteq> fst ` set c2 \<Longrightarrow>
     modified_for c1 c2 ks =
       Inr (map (\<lambda>k. (k, the (map_of c1 k), True)) (filter (\<lambda>k. map_of c1 k \<noteq> map_of c2 k) ks))"
proof (induction ks)
  case Nil
  show ?case by simp
next
  case (Cons k ks)
  from Cons.prems obtain v1 where v1: "map_of c1 k = Some v1" "getitem c1 k = Inr v1"
    using getitem_present [of k c1] by auto
  from Cons.prems obtain v2 where v2: "map_of c2 k = Some v2" "getitem c2 k = Inr v2"
    using getitem_present [of k c2] by auto
  from Cons v1 v2 show ?case by simp
qed

lemma find_differences_total:
  "find_differences c1 c2 =
     Inr (map (\<lambda>k. (k, the (map_of c1 k), False)) (set_minus (key_set c1) (key_set c2)),
          map (\<lambda>k. (k, the (map_of c2 k), True)) (set_minus (key_set c2) (key_set c1)),
          map (\<lambda>k. (k, the (map_of c1 k), True))
            (filter (\<lambda>k. map_of c1 k \<noteq> map_of c2 k) (set_inter (key_set c1) (key_set c2))))"
proof -
  have 1: "set (set_minus (key_set c1) (key_set c2)) \<subseteq> fst ` set c1"
    by (auto simp: set_minus_def key_set_def)
  have 2: "set (set_minus (key_set c2) (key_set c1)) \<subseteq> fst ` set c2"
    by (auto simp: set_minus_def key_set_def)
  have 3: "set (set_inter (key_set c1) (key_set c2)) \<subseteq> fst ` set c1"
    by (auto simp: set_inter_def key_set_def)
  have 4: "set (set_inter (key_set c1) (key_set c2)) \<subseteq> fst ` set c2"
    by (auto simp: set_inter_def key_set_def)
  show ?thesis
    unfolding find_differences_def Let_def
    by (simp add: rows_for_total [OF 1] rows_for_total [OF 2] modified_for_total [OF 3 4])
qed

lemma keys_of_map: "keys_of (map (\<lambda>k. (k, f k, b)) ks) = set ks"
  by (auto simp: keys_of_def image_iff)

lemma map_fst_rows: "map fst (map (\<lambda>k. (k, f k, b)) ks) = ks"
  by (induction ks) auto


section \<open>C1: the header line\<close>

text \<open>
  C1, as the code has it. A line that matches the header is kept out of the accepted rows,
  but both tools append its trimmed form to the list of skipped lines; the converter
  compares with all whitespace removed, the comparison tool compares the trimmed line with
  the header literally.
\<close>

theorem header_line_excluded_and_listed:
  "(re_sub_ws (strip line) = re_sub_ws h \<longrightarrow>
      cleaned_of (process_file_content (before @ line # after) h) =
        cleaned_of (process_file_content (before @ after) h) \<and>
      table_of (process_file_content (before @ line # after) h) =
        table_of (process_file_content (before @ after) h) \<and>
      skipped_of (process_file_content (before @ line # after) h) =
        skipped_of (process_file_content before h) @ [strip line] @
        skipped_of (process_file_content after h)) \<and>
   (strip line = header_literal \<longrightarrow>
      fst (read_content (before @ line # after)) = fst (read_content (before @ after)) \<and>
      snd (read_content (before @ line # after)) =
        snd (read_content before) @ [strip line] @ snd (read_content after))"
proof (intro conjI impI)
  assume m: "re_sub_ws (strip line) = re_sub_ws h"
  have l: "process_file_content [line] h = ([], [strip line], [])"
    using m by (rule process_header_line)
  show "cleaned_of (process_file_content (before @ line # after) h) =
        cleaned_of (process_file_content (before @ after) h)"
    by (simp add: process_file_content_insert [of before line after] process_file_content_append [of before after] l cleaned_of_def)
  show "table_of (process_file_content (before @ line # after) h) =
        table_of (process_file_content (before @ after) h)"
    by (simp add: process_file_content_insert [of before line after] process_file_content_append [of before after] l table_of_def)
  show "skipped_of (process_file_content (before @ line # after) h) =
        skipped_of (process_file_content before h) @ [strip line] @
        skipped_of (process_file_content after h)"
    by (simp add: process_file_content_insert l skipped_of_def)
next
  assume "strip line = header_literal"
  then have s: "strip line = header_literal \<or> length (split_tab (strip line)) \<noteq> 5"
    by simp
  show "fst (read_content (before @ line # after)) = fst (read_content (before @ after))"
    using s by (rule read_content_skip)
  show "snd (read_content (before @ line # after)) =
        snd (read_content before) @ [strip line] @ snd (read_content after)"
    using s by (rule read_content_skip)
qed

theorem header_line_excluded_and_listed_witness:
  "re_sub_ws (strip (header_literal @ [NEWLINE])) = re_sub_ws header_literal \<and>
   strip (header_literal @ [NEWLINE]) = header_literal \<and>
   cleaned_of (process_file_content
      [ascii ''001'' @ [TAB] @ ascii ''Nowak'' @ [TAB] @ ascii ''Jan'' @ [TAB] @ ascii ''IT'' @
         [TAB] @ ascii ''Dev'' @ [NEWLINE],
       header_literal @ [NEWLINE],
       ascii ''002'' @ [TAB] @ ascii ''Kowal'' @ [NEWLINE]] header_literal) =
     [ascii ''001'' @ [TAB] @ ascii ''Nowak'' @ [TAB] @ ascii ''Jan'' @ [TAB] @ ascii ''IT'' @
         [TAB] @ ascii ''Dev'' @ [NEWLINE]] \<and>
   skipped_of (process_file_content
      [ascii ''001'' @ [TAB] @ ascii ''Nowak'' @ [TAB] @ ascii ''Jan'' @ [TAB] @ ascii ''IT'' @
         [TAB] @ ascii ''Dev'' @ [NEWLINE],
       header_literal @ [NEWLINE],
       ascii ''002'' @ [TAB] @ ascii ''Kowal'' @ [NEWLINE]] header_literal) =
     [header_literal, ascii ''002'' @ [TAB] @ ascii ''Kowal''] \<and>
   read_content
      [ascii ''001'' @ [TAB] @ ascii ''Nowak'' @ [TAB] @ ascii ''Jan'' @ [TAB] @ ascii ''IT'' @
         [TAB] @ ascii ''Dev'' @ [NEWLINE],
       header_literal @ [NEWLINE],
       ascii ''002'' @ [TAB] @ ascii ''Kowal'' @ [NEWLINE]] =
     ([(ascii ''001'', [ascii ''Nowak'', ascii ''Jan'', ascii ''IT'', ascii ''Dev''])],
      [header_literal, ascii ''002'' @ [TAB] @ ascii ''Kowal''])"
  using header_line_excluded_and_listed
    [of "header_literal @ [NEWLINE]" header_literal
      "[ascii ''001'' @ [TAB] @ ascii ''Nowak'' @ [TAB] @ ascii ''Jan'' @ [TAB] @ ascii ''IT'' @
         [TAB] @ ascii ''Dev'' @ [NEWLINE]]"
      "[ascii ''002'' @ [TAB] @ ascii ''Kowal'' @ [NEWLINE]]"]
  by (simp add: text_defs loop_defs)

theorem header_line_excluded_counterexample:
  "re_sub_ws (strip (header_literal @ [NEWLINE])) = re_sub_ws header_literal \<and>
   skipped_of (process_file_content [header_literal @ [NEWLINE]] header_literal) = [header_literal] \<and>
   snd (read_content [header_literal @ [NEWLINE]]) = [header_literal] \<and>
   re_sub_ws (strip (ascii ''K od'' @ [TAB] @ ascii ''Nazwisko'' @ [TAB] @ ascii ''Imie'' @ [TAB] @
       ascii ''Dzia'' @ [322] @ [TAB] @ ascii ''Zatrudnienie'' @ [NEWLINE])) =
     re_sub_ws header_literal \<and>
   fst (read_content [ascii ''K od'' @ [TAB] @ ascii ''Nazwisko'' @ [TAB] @ ascii ''Imie'' @ [TAB] @
       ascii ''Dzia'' @ [322] @ [TAB] @ ascii ''Zatrudnienie'' @ [NEWLINE]]) =
     [(ascii ''K od'', [ascii ''Nazwisko'', ascii ''Imie'', ascii ''Dzia'' @ [322],
        ascii ''Zatrudnienie''])]"
  by (simp add: text_defs loop_defs)

section \<open>C3: the three collections\<close>

text \<open>
  C3. The keys of the three collections of \<open>find_differences\<close> are the keys only in A, the
  keys only in B and the keys in both whose values differ; the collections are pairwise
  disjoint by key, no key stands twice in one of them, and a key of A or B is in none of
  them exactly when it is in both with equal values.
\<close>

theorem find_differences_partition:
  "\<exists>unique_to_A unique_to_B modified.
     find_differences A B = Inr (unique_to_A, unique_to_B, modified) \<and>
     keys_of unique_to_A = fst ` set A - fst ` set B \<and>
     keys_of unique_to_B = fst ` set B - fst ` set A \<and>
     keys_of modified = {k \<in> fst ` set A \<inter> fst ` set B. getitem A k \<noteq> getitem B k} \<and>
     keys_of unique_to_A \<inter> keys_of unique_to_B = {} \<and>
     keys_of unique_to_A \<inter> keys_of modified = {} \<and>
     keys_of unique_to_B \<inter> keys_of modified = {} \<and>
     distinct (map fst unique_to_A) \<and> distinct (map fst unique_to_B) \<and>
     distinct (map fst modified) \<and>
     (\<forall>k \<in> fst ` set A \<union> fst ` set B.
        k \<notin> keys_of unique_to_A \<union> keys_of unique_to_B \<union> keys_of modified \<longleftrightarrow>
        k \<in> fst ` set A \<and> k \<in> fst ` set B \<and> getitem A k = getitem B k)"
proof -
  let ?u1 = "map (\<lambda>k. (k, the (map_of A k), False)) (set_minus (key_set A) (key_set B))"
  let ?u2 = "map (\<lambda>k. (k, the (map_of B k), True)) (set_minus (key_set B) (key_set A))"
  let ?m = "map (\<lambda>k. (k, the (map_of A k), True))
            (filter (\<lambda>k. map_of A k \<noteq> map_of B k) (set_inter (key_set A) (key_set B)))"
  have r: "find_differences A B = Inr (?u1, ?u2, ?m)"
    by (rule find_differences_total)
  have k1: "keys_of ?u1 = fst ` set A - fst ` set B"
    unfolding keys_of_map by (auto simp: set_minus_def key_set_def)
  have k2: "keys_of ?u2 = fst ` set B - fst ` set A"
    unfolding keys_of_map by (auto simp: set_minus_def key_set_def)
  have k3: "keys_of ?m = {k \<in> fst ` set A \<inter> fst ` set B. getitem A k \<noteq> getitem B k}"
    unfolding keys_of_map by (auto simp: set_inter_def key_set_def getitem_eq_iff)
  have d1: "distinct (map fst ?u1)"
    unfolding map_fst_rows by (simp add: set_minus_def key_set_def)
  have d2: "distinct (map fst ?u2)"
    unfolding map_fst_rows by (simp add: set_minus_def key_set_def)
  have d3: "distinct (map fst ?m)"
    unfolding map_fst_rows by (simp add: set_inter_def key_set_def)
  show ?thesis
    apply (intro exI conjI)
              apply (rule r)
             apply (rule k1)
            apply (rule k2)
           apply (rule k3)
    unfolding k1 k2 k3
          apply blast
         apply blast
        apply blast
       apply (rule d1)
      apply (rule d2)
     apply (rule d3)
    apply blast
    done
qed

theorem find_differences_partition_witness:
  "find_differences
     [(ascii ''001'', [ascii ''Nowak'', ascii ''Jan'', ascii ''IT'', ascii ''Dev'']),
      (ascii ''002'', [ascii ''Kowal'', ascii ''Ewa'', ascii ''HR'', ascii ''Lead'']),
      (ascii ''004'', [ascii ''Lis'', ascii ''Ola'', ascii ''IT'', ascii ''QA''])]
     [(ascii ''001'', [ascii ''Nowak'', ascii ''Jan'', ascii ''IT'', ascii ''Manager'']),
      (ascii ''003'', [ascii ''Wilk'', ascii ''Adam'', ascii ''IT'', ascii ''Dev'']),
      (ascii ''004'', [ascii ''Lis'', ascii ''Ola'', ascii ''IT'', ascii ''QA''])] =
   Inr ([(ascii ''002'', [ascii ''Kowal'', ascii ''Ewa'', ascii ''HR'', ascii ''Lead''], False)],
        [(ascii ''003'', [ascii ''Wilk'', ascii ''Adam'', ascii ''IT'', ascii ''Dev''], True)],
        [(ascii ''001'', [ascii ''Nowak'', ascii ''Jan'', ascii ''IT'', ascii ''Dev''], True)]) \<and>
   keys_of [(ascii ''002'', [ascii ''Kowal'', ascii ''Ewa'', ascii ''HR'', ascii ''Lead''], False)] \<inter>
     keys_of [(ascii ''001'', [ascii ''Nowak'', ascii ''Jan'', ascii ''IT'', ascii ''Dev''], True)] = {} \<and>
   ascii ''004'' \<in> fst ` set
     [(ascii ''001'', [ascii ''Nowak'', ascii ''Jan'', ascii ''IT'', ascii ''Dev'']),
      (ascii ''002'', [ascii ''Kowal'', ascii ''Ewa'', ascii ''HR'', ascii ''Lead'']),
      (ascii ''004'', [ascii ''Lis'', ascii ''Ola'', ascii ''IT'', ascii ''QA''])] \<and>
   ascii ''004'' \<notin>
     keys_of [(ascii ''002'', [ascii ''Kowal'', ascii ''Ewa'', ascii ''HR'', ascii ''Lead''], False)] \<union>
     keys_of [(ascii ''003'', [ascii ''Wilk'', ascii ''Adam'', ascii ''IT'', ascii ''Dev''], True)] \<union>
     keys_of [(ascii ''001'', [ascii ''Nowak'', ascii ''Jan'', ascii ''IT'', ascii ''Dev''], True)]"
proof -
  let ?A = "[(ascii ''001'', [ascii ''Nowak'', ascii ''Jan'', ascii ''IT'', ascii ''Dev'']),
      (ascii ''002'', [ascii ''Kowal'', ascii ''Ewa'', ascii ''HR'', ascii ''Lead'']),
      (ascii ''004'', [ascii ''Lis'', ascii ''Ola'', ascii ''IT'', ascii ''QA''])]"
  let ?B = "[(ascii ''001'', [ascii ''Nowak'', ascii ''Jan'', ascii ''IT'', ascii ''Manager'']),
      (ascii ''003'', [ascii ''Wilk'', ascii ''Adam'', ascii ''IT'', ascii ''Dev'']),
      (ascii ''004'', [ascii ''Lis'', ascii ''Ola'', ascii ''IT'', ascii ''QA''])]"
  let ?u1 = "[(ascii ''002'', [ascii ''Kowal'', ascii ''Ewa'', ascii ''HR'', ascii ''Lead''], False)]"
  let ?u2 = "[(ascii ''003'', [ascii ''Wilk'', ascii ''Adam'', ascii ''IT'', ascii ''Dev''], True)]"
  let ?m = "[(ascii ''001'', [ascii ''Nowak'', ascii ''Jan'', ascii ''IT'', ascii ''Dev''], True)]"
  have e: "find_differences ?A ?B = Inr (?u1, ?u2, ?m)"
    by (simp add: diff_defs ascii_def)
  have k: "ascii ''004'' \<in> fst ` set ?A"
    by simp
  have kk: "ascii ''004'' \<in> fst ` set ?A \<union> fst ` set ?B"
    by simp
  have g: "ascii ''004'' \<in> fst ` set ?A \<and> ascii ''004'' \<in> fst ` set ?B \<and>
           getitem ?A (ascii ''004'') = getitem ?B (ascii ''004'')"
    by (simp add: getitem_def ascii_def)
  from find_differences_partition [of ?A ?B] obtain a b c where
    r: "find_differences ?A ?B = Inr (a, b, c)" and
    d: "keys_of a \<inter> keys_of c = {}" and
    n: "\<forall>k \<in> fst ` set ?A \<union> fst ` set ?B.
          k \<notin> keys_of a \<union> keys_of b \<union> keys_of c \<longleftrightarrow>
          k \<in> fst ` set ?A \<and> k \<in> fst ` set ?B \<and> getitem ?A k = getitem ?B k"
    by (elim exE conjE) (rule that)
  from r e have abc: "a = ?u1" "b = ?u2" "c = ?m" by simp_all
  from n kk have "ascii ''004'' \<notin> keys_of a \<union> keys_of b \<union> keys_of c \<longleftrightarrow>
          ascii ''004'' \<in> fst ` set ?A \<and> ascii ''004'' \<in> fst ` set ?B \<and>
          getitem ?A (ascii ''004'') = getitem ?B (ascii ''004'')"
    by (rule bspec)
  with g have nn: "ascii ''004'' \<notin> keys_of a \<union> keys_of b \<union> keys_of c"
    by (rule_tac iffD2)
  show ?thesis
    by (intro conjI) (rule e, rule d [unfolded abc], rule k, rule nn [unfolded abc])
qed

section \<open>C4: modified rows\<close>

text \<open>
  C4. A key that both dictionaries hold is among the modified rows exactly when the two
  value lists are not equal as lists of strings (nothing is trimmed or folded before the
  comparison), and its one row there carries the value list of the first file and the
  flag \<open>True\<close>.
\<close>

theorem modified_iff_values_differ:
  assumes "kod \<in> fst ` set A" and "kod \<in> fst ` set B"
  shows "\<exists>unique_to_A unique_to_B modified v1 v2.
           find_differences A B = Inr (unique_to_A, unique_to_B, modified) \<and>
           getitem A kod = Inr v1 \<and> getitem B kod = Inr v2 \<and>
           (kod \<in> keys_of modified \<longleftrightarrow> v1 \<noteq> v2) \<and>
           ((kod, v1, True) \<in> set modified \<longleftrightarrow> v1 \<noteq> v2) \<and>
           (\<forall>row \<in> set modified. fst row = kod \<longrightarrow> row = (kod, v1, True))"
proof -
  let ?u1 = "map (\<lambda>k. (k, the (map_of A k), False)) (set_minus (key_set A) (key_set B))"
  let ?u2 = "map (\<lambda>k. (k, the (map_of B k), True)) (set_minus (key_set B) (key_set A))"
  let ?ks = "filter (\<lambda>k. map_of A k \<noteq> map_of B k) (set_inter (key_set A) (key_set B))"
  let ?m = "map (\<lambda>k. (k, the (map_of A k), True)) ?ks"
  have r: "find_differences A B = Inr (?u1, ?u2, ?m)"
    by (rule find_differences_total)
  from assms obtain v1 where v1: "map_of A kod = Some v1" "getitem A kod = Inr v1"
    using getitem_present [of kod A] by auto
  from assms obtain v2 where v2: "map_of B kod = Some v2" "getitem B kod = Inr v2"
    using getitem_present [of kod B] by auto
  have ks: "kod \<in> set ?ks \<longleftrightarrow> v1 \<noteq> v2"
    using assms v1 v2 by (simp add: set_inter_def key_set_def)
  have k: "kod \<in> keys_of ?m \<longleftrightarrow> v1 \<noteq> v2"
    unfolding keys_of_map by (rule ks)
  have mem: "(kod, v1, True) \<in> set ?m \<longleftrightarrow> v1 \<noteq> v2"
    using ks v1 by (auto simp: image_iff)
  have rep: "\<forall>row \<in> set ?m. fst row = kod \<longrightarrow> row = (kod, v1, True)"
    using v1 by auto
  show ?thesis
    by (intro exI conjI) (rule r, rule v1(2), rule v2(2), rule k, rule mem, rule rep)
qed

theorem modified_iff_values_differ_witness:
  "ascii ''001'' \<in> fst ` set [(ascii ''001'', [ascii ''Nowak'', ascii ''Jan'', ascii ''IT'', ascii ''Dev''])] \<and>
   ascii ''001'' \<in> fst ` set [(ascii ''001'', [ascii ''Nowak'', ascii ''Jan'', ascii ''IT'', ascii ''Manager''])] \<and>
   find_differences
     [(ascii ''001'', [ascii ''Nowak'', ascii ''Jan'', ascii ''IT'', ascii ''Dev''])]
     [(ascii ''001'', [ascii ''Nowak'', ascii ''Jan'', ascii ''IT'', ascii ''Manager''])] =
   Inr ([], [], [(ascii ''001'', [ascii ''Nowak'', ascii ''Jan'', ascii ''IT'', ascii ''Dev''], True)]) \<and>
   ascii ''001'' \<in>
     keys_of [(ascii ''001'', [ascii ''Nowak'', ascii ''Jan'', ascii ''IT'', ascii ''Dev''], True)]"
proof -
  let ?A = "[(ascii ''001'', [ascii ''Nowak'', ascii ''Jan'', ascii ''IT'', ascii ''Dev''])]"
  let ?B = "[(ascii ''001'', [ascii ''Nowak'', ascii ''Jan'', ascii ''IT'', ascii ''Manager''])]"
  let ?m = "[(ascii ''001'', [ascii ''Nowak'', ascii ''Jan'', ascii ''IT'', ascii ''Dev''], True)]"
  have a: "ascii ''001'' \<in> fst ` set ?A" by simp
  have b: "ascii ''001'' \<in> fst ` set ?B" by simp
  have e: "find_differences ?A ?B = Inr ([], [], ?m)"
    by (simp add: diff_defs ascii_def)
  have ga: "getitem ?A (ascii ''001'') = Inr [ascii ''Nowak'', ascii ''Jan'', ascii ''IT'', ascii ''Dev'']"
    by (simp add: getitem_def)
  have gb: "getitem ?B (ascii ''001'') = Inr [ascii ''Nowak'', ascii ''Jan'', ascii ''IT'', ascii ''Manager'']"
    by (simp add: getitem_def)
  have ne: "[ascii ''Nowak'', ascii ''Jan'', ascii ''IT'', ascii ''Dev''] \<noteq>
            [ascii ''Nowak'', ascii ''Jan'', ascii ''IT'', ascii ''Manager'']"
    by (simp add: ascii_def)
  from modified_iff_values_differ [OF a b] obtain u1 u2 m v1 v2 where
    r: "find_differences ?A ?B = Inr (u1, u2, m)" and
    va: "getitem ?A (ascii ''001'') = Inr v1" and vb: "getitem ?B (ascii ''001'') = Inr v2" and
    i: "ascii ''001'' \<in> keys_of m \<longleftrightarrow> v1 \<noteq> v2"
    by (elim exE conjE) (rule that)
  from va ga have v1: "v1 = [ascii ''Nowak'', ascii ''Jan'', ascii ''IT'', ascii ''Dev'']" by simp
  from vb gb have v2: "v2 = [ascii ''Nowak'', ascii ''Jan'', ascii ''IT'', ascii ''Manager'']" by simp
  from r e have m: "m = ?m" by simp
  from ne have "v1 \<noteq> v2" unfolding v1 v2 .
  with i have "ascii ''001'' \<in> keys_of m" by (rule_tac iffD2)
  then have im: "ascii ''001'' \<in> keys_of ?m" unfolding m .
  show ?thesis
    by (intro conjI) (rule a, rule b, rule e, rule im)
qed

text \<open>values that differ only in case or in a trailing blank are reported\<close>
lemma modified_no_normalisation:
  "find_differences [(ascii ''1'', [ascii ''Dev''])] [(ascii ''1'', [ascii ''dev''])] =
     Inr ([], [], [(ascii ''1'', [ascii ''Dev''], True)]) \<and>
   find_differences [(ascii ''1'', [ascii ''Dev''])] [(ascii ''1'', [ascii ''Dev ''])] =
     Inr ([], [], [(ascii ''1'', [ascii ''Dev''], True)])"
  by (simp add: diff_defs ascii_def)

section \<open>Where accepted rows come from\<close>

lemma five_fields:
  "length xs = 5 \<Longrightarrow> xs = [xs ! 0, xs ! 1, xs ! 2, xs ! 3, xs ! 4]"
  by (auto simp: numeral_eq_Suc length_Suc_conv)

lemma read_content_snoc:
  "read_content (xs @ [l]) = read_lines (read_content xs) [l]"
  by (simp add: read_content_def read_lines_append)

lemma read_content_insert:
  "read_content (xs @ l # ys) = read_lines (read_lines (read_content xs) [l]) ys"
  using read_lines_append [of "([], [])" "xs @ [l]" ys] read_lines_append [of "([], [])" xs "[l]"]
  by (simp add: read_content_def)

lemma set_update_subset: "set (AList.update k v al) \<subseteq> insert (k, v) (set al)"
  by (induction al) auto

lemma read_lines_origin:
  "(kod, v) \<in> set (fst (read_lines (d, s) content)) \<Longrightarrow>
     (kod, v) \<in> set d \<or>
     (\<exists>line \<in> set content. strip line \<noteq> header_literal \<and>
        length (split_tab (strip line)) = 5 \<and> split_tab (strip line) = kod # v)"
proof (induction content arbitrary: d s)
  case Nil
  then show ?case by simp
next
  case (Cons l ls)
  let ?f = "split_tab (strip l)"
  consider (skip) "strip l = header_literal \<or> length ?f \<noteq> 5"
    | (row) "strip l \<noteq> header_literal" "length ?f = 5"
    by blast
  then show ?case
  proof cases
    case skip
    then have "read_lines (d, s) (l # ls) = read_lines (d, s @ [strip l]) ls"
      by (auto simp: Let_def)
    with Cons.prems Cons.IH [of d "s @ [strip l]"] show ?thesis by auto
  next
    case row
    let ?d = "AList.update (?f ! 0) [?f ! 1, ?f ! 2, ?f ! 3, ?f ! 4] d"
    from row have "read_lines (d, s) (l # ls) = read_lines (?d, s) ls"
      by (simp add: Let_def)
    with Cons.prems Cons.IH [of ?d s]
    consider (old) "(kod, v) \<in> set ?d"
      | (later) "\<exists>line \<in> set ls. strip line \<noteq> header_literal \<and>
        length (split_tab (strip line)) = 5 \<and> split_tab (strip line) = kod # v"
      by auto
    then show ?thesis
    proof cases
      case old
      then have "(kod, v) = (?f ! 0, [?f ! 1, ?f ! 2, ?f ! 3, ?f ! 4]) \<or> (kod, v) \<in> set d"
        using set_update_subset [of "?f ! 0" "[?f ! 1, ?f ! 2, ?f ! 3, ?f ! 4]" d] by auto
      then show ?thesis
      proof
        assume "(kod, v) = (?f ! 0, [?f ! 1, ?f ! 2, ?f ! 3, ?f ! 4])"
        then have "?f = kod # v" using five_fields [OF row(2)] by simp
        with row show ?thesis by simp
      next
        assume "(kod, v) \<in> set d"
        then show ?thesis by simp
      qed
    next
      case later
      then show ?thesis by auto
    qed
  qed
qed

lemma table_origin:
  "row \<in> set (table_of (process_file_content content h)) \<Longrightarrow>
     \<exists>line \<in> set content. re_sub_ws (strip line) \<noteq> re_sub_ws h \<and>
        length (re_split (strip line)) = 5 \<and> row = map replace_quote (re_split (strip line))"
proof (induction content)
  case Nil
  then show ?case by (simp add: process_file_content_Nil table_of_def)
next
  case (Cons l ls)
  from Cons.prems have "row \<in> set (table_of (process_file_content [l] h)) \<or>
      row \<in> set (table_of (process_file_content ls h))"
    by (simp add: process_file_content_Cons [of l ls h] table_of_def)
  then show ?case
  proof
    assume a: "row \<in> set (table_of (process_file_content [l] h))"
    have "re_sub_ws (strip l) \<noteq> re_sub_ws h \<and> length (re_split (strip l)) = 5"
    proof (rule ccontr)
      assume "\<not> ?thesis"
      then have "process_file_content [l] h = ([], [strip l], [])"
        using process_header_line [of l h] process_bad_line [of l h] by blast
      with a show False by (simp add: table_of_def)
    qed
    with a process_row_line [of l h] show ?thesis by (simp add: table_of_def)
  next
    assume "row \<in> set (table_of (process_file_content ls h))"
    with Cons.IH show ?thesis by auto
  qed
qed

lemma cleaned_from_table:
  "cleaned_of (process_file_content content h) =
     map (\<lambda>fields. join_tab fields @ [NEWLINE]) (table_of (process_file_content content h))"
proof (induction content)
  case Nil
  show ?case by (simp add: process_file_content_Nil table_of_def cleaned_of_def)
next
  case (Cons l ls)
  have "cleaned_of (process_file_content [l] h) =
     map (\<lambda>fields. join_tab fields @ [NEWLINE]) (table_of (process_file_content [l] h))"
    by (simp add: process_file_content_def table_of_def cleaned_of_def Let_def)
  with Cons.IH show ?case
    by (simp add: process_file_content_Cons [of l ls h] table_of_def cleaned_of_def)
qed

section \<open>C8: malformed lines\<close>

text \<open>
  C8. A line that is not a header match and does not split into exactly five fields adds
  nothing to the accepted output, to the table or to the dictionary: they are what they
  would be without the line. Its trimmed form is appended to the skipped lines, between
  those of the lines before it and those of the lines after it, which are processed as
  before.
\<close>

theorem malformed_line_skipped:
  "(re_sub_ws (strip line) \<noteq> re_sub_ws h \<and> length (re_split (strip line)) \<noteq> 5 \<longrightarrow>
      cleaned_of (process_file_content (before @ line # after) h) =
        cleaned_of (process_file_content (before @ after) h) \<and>
      table_of (process_file_content (before @ line # after) h) =
        table_of (process_file_content (before @ after) h) \<and>
      skipped_of (process_file_content (before @ line # after) h) =
        skipped_of (process_file_content before h) @ [strip line] @
        skipped_of (process_file_content after h)) \<and>
   (strip line \<noteq> header_literal \<and> length (split_tab (strip line)) \<noteq> 5 \<longrightarrow>
      fst (read_content (before @ line # after)) = fst (read_content (before @ after)) \<and>
      snd (read_content (before @ line # after)) =
        snd (read_content before) @ [strip line] @ snd (read_content after))"
proof (intro conjI impI)
  assume m: "re_sub_ws (strip line) \<noteq> re_sub_ws h \<and> length (re_split (strip line)) \<noteq> 5"
  then have l: "process_file_content [line] h = ([], [strip line], [])"
    by (simp add: process_bad_line)
  show "cleaned_of (process_file_content (before @ line # after) h) =
        cleaned_of (process_file_content (before @ after) h)"
    by (simp add: process_file_content_insert [of before line after]
        process_file_content_append [of before after] l cleaned_of_def)
  show "table_of (process_file_content (before @ line # after) h) =
        table_of (process_file_content (before @ after) h)"
    by (simp add: process_file_content_insert [of before line after]
        process_file_content_append [of before after] l table_of_def)
  show "skipped_of (process_file_content (before @ line # after) h) =
        skipped_of (process_file_content before h) @ [strip line] @
        skipped_of (process_file_content after h)"
    by (simp add: process_file_content_insert l skipped_of_def)
next
  assume "strip line \<noteq> header_literal \<and> length (split_tab (strip line)) \<noteq> 5"
  then have s: "strip line = header_literal \<or> length (split_tab (strip line)) \<noteq> 5"
    by simp
  show "fst (read_content (before @ line # after)) = fst (read_content (before @ after))"
    using s by (rule read_content_skip)
  show "snd (read_content (before @ line # after)) =
        snd (read_content before) @ [strip line] @ snd (read_content after)"
    using s by (rule read_content_skip)
qed

theorem malformed_line_skipped_witness:
  "re_sub_ws (strip (ascii ''001'' @ [TAB] @ ascii ''Nowak'' @ [TAB] @ ascii ''Jan'' @ [TAB] @
       ascii ''IT'' @ [NEWLINE])) \<noteq> re_sub_ws header_literal \<and>
   length (re_split (strip (ascii ''001'' @ [TAB] @ ascii ''Nowak'' @ [TAB] @ ascii ''Jan'' @ [TAB] @
       ascii ''IT'' @ [NEWLINE]))) = 4 \<and>
   length (split_tab (strip (ascii ''001'' @ [TAB] @ ascii ''Nowak'' @ [TAB] @ ascii ''Jan'' @ [TAB] @
       ascii ''IT'' @ [NEWLINE]))) = 4 \<and>
   process_file_content
     [ascii ''7'' @ [TAB] @ ascii ''a'' @ [TAB] @ ascii ''b'' @ [TAB] @ ascii ''c'' @ [TAB] @
        ascii ''d'' @ [NEWLINE],
      ascii ''001'' @ [TAB] @ ascii ''Nowak'' @ [TAB] @ ascii ''Jan'' @ [TAB] @ ascii ''IT'' @ [NEWLINE],
      ascii ''8'' @ [TAB] @ ascii ''e'' @ [TAB] @ ascii ''f'' @ [TAB] @ ascii ''g'' @ [TAB] @
        ascii ''h'' @ [NEWLINE]] header_literal =
     ([ascii ''7'' @ [TAB] @ ascii ''a'' @ [TAB] @ ascii ''b'' @ [TAB] @ ascii ''c'' @ [TAB] @
        ascii ''d'' @ [NEWLINE],
       ascii ''8'' @ [TAB] @ ascii ''e'' @ [TAB] @ ascii ''f'' @ [TAB] @ ascii ''g'' @ [TAB] @
        ascii ''h'' @ [NEWLINE]],
      [ascii ''001'' @ [TAB] @ ascii ''Nowak'' @ [TAB] @ ascii ''Jan'' @ [TAB] @ ascii ''IT''],
      [[ascii ''7'', ascii ''a'', ascii ''b'', ascii ''c'', ascii ''d''],
       [ascii ''8'', ascii ''e'', ascii ''f'', ascii ''g'', ascii ''h'']]) \<and>
   read_content
     [ascii ''7'' @ [TAB] @ ascii ''a'' @ [TAB] @ ascii ''b'' @ [TAB] @ ascii ''c'' @ [TAB] @
        ascii ''d'' @ [NEWLINE],
      ascii ''001'' @ [TAB] @ ascii ''Nowak'' @ [TAB] @ ascii ''Jan'' @ [TAB] @ ascii ''IT'' @ [NEWLINE],
      ascii ''8'' @ [TAB] @ ascii ''e'' @ [TAB] @ ascii ''f'' @ [TAB] @ ascii ''g'' @ [TAB] @
        ascii ''h'' @ [NEWLINE]] =
     ([(ascii ''7'', [ascii ''a'', ascii ''b'', ascii ''c'', ascii ''d'']),
       (ascii ''8'', [ascii ''e'', ascii ''f'', ascii ''g'', ascii ''h''])],
      [ascii ''001'' @ [TAB] @ ascii ''Nowak'' @ [TAB] @ ascii ''Jan'' @ [TAB] @ ascii ''IT''])"
  using malformed_line_skipped
    [of "ascii ''001'' @ [TAB] @ ascii ''Nowak'' @ [TAB] @ ascii ''Jan'' @ [TAB] @ ascii ''IT'' @ [NEWLINE]"
      header_literal
      "[ascii ''7'' @ [TAB] @ ascii ''a'' @ [TAB] @ ascii ''b'' @ [TAB] @ ascii ''c'' @ [TAB] @
        ascii ''d'' @ [NEWLINE]]"
      "[ascii ''8'' @ [TAB] @ ascii ''e'' @ [TAB] @ ascii ''f'' @ [TAB] @ ascii ''g'' @ [TAB] @
        ascii ''h'' @ [NEWLINE]]"]
  by (simp add: text_defs loop_defs)

section \<open>C2: lines of five fields\<close>

lemma replace_quote_no_quote: "QUOTE \<notin> set (replace_quote f)"
  by (simp add: replace_quote_def)

text \<open>
  C2, as the code has it. A line that is not a header match and whose trimmed form splits
  into exactly five fields is accepted. The converter splits first and removes the double
  quotes from each piece afterwards; its row is these five pieces in their order, free of
  double quotes, and its output line joins them with tabs. The comparison tool removes no
  double quote: it stores the five pieces as they stand, the first as key and the other
  four as value.
\<close>

theorem five_fields_accepted:
  "(re_sub_ws (strip line) \<noteq> re_sub_ws h \<and> length (re_split (strip line)) = 5 \<longrightarrow>
      process_file_content (before @ line # after) h =
        (cleaned_of (process_file_content before h) @
           [join_tab (map replace_quote (re_split (strip line))) @ [NEWLINE]] @
           cleaned_of (process_file_content after h),
         skipped_of (process_file_content before h) @ skipped_of (process_file_content after h),
         table_of (process_file_content before h) @
           [map replace_quote (re_split (strip line))] @
           table_of (process_file_content after h)) \<and>
      (\<forall>field \<in> set (map replace_quote (re_split (strip line))). QUOTE \<notin> set field)) \<and>
   (strip line \<noteq> header_literal \<and> split_tab (strip line) = [kod, f1, f2, f3, f4] \<longrightarrow>
      read_content (before @ [line]) =
        (AList.update kod [f1, f2, f3, f4] (fst (read_content before)), snd (read_content before)) \<and>
      map_of (fst (read_content (before @ [line]))) kod = Some [f1, f2, f3, f4])"
proof (intro conjI impI)
  assume m: "re_sub_ws (strip line) \<noteq> re_sub_ws h \<and> length (re_split (strip line)) = 5"
  then have l: "process_file_content [line] h =
       ([join_tab (map replace_quote (re_split (strip line))) @ [NEWLINE]], [],
        [map replace_quote (re_split (strip line))])"
    by (simp add: process_row_line)
  show "process_file_content (before @ line # after) h =
        (cleaned_of (process_file_content before h) @
           [join_tab (map replace_quote (re_split (strip line))) @ [NEWLINE]] @
           cleaned_of (process_file_content after h),
         skipped_of (process_file_content before h) @ skipped_of (process_file_content after h),
         table_of (process_file_content before h) @
           [map replace_quote (re_split (strip line))] @
           table_of (process_file_content after h))"
    by (simp add: process_file_content_insert [of before line after] l
        cleaned_of_def skipped_of_def table_of_def)
  show "\<forall>field \<in> set (map replace_quote (re_split (strip line))). QUOTE \<notin> set field"
    by (auto simp: replace_quote_no_quote)
next
  assume m: "strip line \<noteq> header_literal \<and> split_tab (strip line) = [kod, f1, f2, f3, f4]"
  obtain d s where b: "read_content before = (d, s)" by (cases "read_content before")
  from m have m1: "strip line \<noteq> header_literal"
    and m2: "split_tab (strip line) = [kod, f1, f2, f3, f4]"
    by simp_all
  have r: "read_lines (d, s) [line] = (AList.update kod [f1, f2, f3, f4] d, s)"
    using m1 m2 by (rule read_row_line)
  show e: "read_content (before @ [line]) =
        (AList.update kod [f1, f2, f3, f4] (fst (read_content before)), snd (read_content before))"
    unfolding read_content_snoc b r by simp
  show "map_of (fst (read_content (before @ [line]))) kod = Some [f1, f2, f3, f4]"
    unfolding e by (simp add: update_conv')
qed

theorem five_fields_accepted_witness:
  "re_sub_ws (strip (ascii ''001'' @ [TAB, QUOTE] @ ascii ''Nowak'' @ [QUOTE, TAB] @ ascii ''Jan'' @
       [TAB] @ ascii ''IT'' @ [TAB] @ ascii ''Dev'' @ [NEWLINE])) \<noteq> re_sub_ws header_literal \<and>
   length (re_split (strip (ascii ''001'' @ [TAB, QUOTE] @ ascii ''Nowak'' @ [QUOTE, TAB] @
       ascii ''Jan'' @ [TAB] @ ascii ''IT'' @ [TAB] @ ascii ''Dev'' @ [NEWLINE]))) = 5 \<and>
   process_file_content
     [ascii ''001'' @ [TAB, QUOTE] @ ascii ''Nowak'' @ [QUOTE, TAB] @ ascii ''Jan'' @
       [TAB] @ ascii ''IT'' @ [TAB] @ ascii ''Dev'' @ [NEWLINE]] header_literal =
     ([ascii ''001'' @ [TAB] @ ascii ''Nowak'' @ [TAB] @ ascii ''Jan'' @ [TAB] @ ascii ''IT'' @
        [TAB] @ ascii ''Dev'' @ [NEWLINE]],
      [],
      [[ascii ''001'', ascii ''Nowak'', ascii ''Jan'', ascii ''IT'', ascii ''Dev'']]) \<and>
   strip (ascii ''001'' @ [TAB, QUOTE] @ ascii ''Nowak'' @ [QUOTE, TAB] @ ascii ''Jan'' @
       [TAB] @ ascii ''IT'' @ [TAB] @ ascii ''Dev'' @ [NEWLINE]) \<noteq> header_literal \<and>
   split_tab (strip (ascii ''001'' @ [TAB, QUOTE] @ ascii ''Nowak'' @ [QUOTE, TAB] @ ascii ''Jan'' @
       [TAB] @ ascii ''IT'' @ [TAB] @ ascii ''Dev'' @ [NEWLINE])) =
     [ascii ''001'', [QUOTE] @ ascii ''Nowak'' @ [QUOTE], ascii ''Jan'', ascii ''IT'', ascii ''Dev''] \<and>
   read_content
     [ascii ''001'' @ [TAB, QUOTE] @ ascii ''Nowak'' @ [QUOTE, TAB] @ ascii ''Jan'' @
       [TAB] @ ascii ''IT'' @ [TAB] @ ascii ''Dev'' @ [NEWLINE]] =
     ([(ascii ''001'', [[QUOTE] @ ascii ''Nowak'' @ [QUOTE], ascii ''Jan'', ascii ''IT'', ascii ''Dev''])],
      [])"
  using five_fields_accepted
    [of "ascii ''001'' @ [TAB, QUOTE] @ ascii ''Nowak'' @ [QUOTE, TAB] @ ascii ''Jan'' @
       [TAB] @ ascii ''IT'' @ [TAB] @ ascii ''Dev'' @ [NEWLINE]"
      header_literal "[]" "[]" "ascii ''001''" "[QUOTE] @ ascii ''Nowak'' @ [QUOTE]"
      "ascii ''Jan''" "ascii ''IT''" "ascii ''Dev''"]
  by (simp add: text_defs loop_defs)

theorem five_fields_accepted_counterexample:
  "length (split_tab (replace_quote (strip ([QUOTE] @ ascii ''001'' @ [QUOTE, TAB] @ ascii ''Nowak'' @
       [TAB] @ ascii ''Jan'' @ [TAB] @ ascii ''IT'' @ [TAB] @ ascii ''Dev'' @ [NEWLINE])))) = 5 \<and>
   fst (read_content [[QUOTE] @ ascii ''001'' @ [QUOTE, TAB] @ ascii ''Nowak'' @
       [TAB] @ ascii ''Jan'' @ [TAB] @ ascii ''IT'' @ [TAB] @ ascii ''Dev'' @ [NEWLINE]]) =
     [([QUOTE] @ ascii ''001'' @ [QUOTE], [ascii ''Nowak'', ascii ''Jan'', ascii ''IT'', ascii ''Dev''])] \<and>
   length (re_split (replace_quote (strip (ascii ''1'' @ [TAB] @ ascii ''a'' @ [TAB] @ ascii ''b'' @
       [TAB] @ ascii ''c'' @ [SPACE, QUOTE, QUOTE, SPACE] @ ascii ''d'' @ [NEWLINE])))) = 5 \<and>
   process_file_content [ascii ''1'' @ [TAB] @ ascii ''a'' @ [TAB] @ ascii ''b'' @
       [TAB] @ ascii ''c'' @ [SPACE, QUOTE, QUOTE, SPACE] @ ascii ''d'' @ [NEWLINE]] header_literal =
     ([],
      [ascii ''1'' @ [TAB] @ ascii ''a'' @ [TAB] @ ascii ''b'' @ [TAB] @ ascii ''c'' @
         [SPACE, QUOTE, QUOTE, SPACE] @ ascii ''d''],
      []) \<and>
   length (re_split (replace_quote (strip (header_literal @ [NEWLINE])))) = 5 \<and>
   length (split_tab (replace_quote (strip (header_literal @ [NEWLINE])))) = 5 \<and>
   process_file_content [header_literal @ [NEWLINE]] header_literal = ([], [header_literal], []) \<and>
   read_content [header_literal @ [NEWLINE]] = ([], [header_literal])"
  by (simp add: text_defs loop_defs)

section \<open>C6: a row needs five fields\<close>

text \<open>
  C6. Every row of the converter's table comes from an input line whose trimmed form splits
  into exactly five pieces at tabs and runs of two or more spaces; every entry of the
  comparison tool's dictionary comes from a line whose trimmed form splits into exactly
  five pieces at tabs alone. The line \<open>001  Nowak  Jan  IT  Developer\<close> is a row of five
  fields for the converter and a skipped line for the comparison tool.
\<close>

theorem row_only_from_five_fields:
  "(\<forall>row \<in> set (table_of (process_file_content content h)).
      \<exists>line \<in> set content.
        length (re_split (strip line)) = 5 \<and> row = map replace_quote (re_split (strip line))) \<and>
   (\<forall>entry \<in> set (fst (read_content content)).
      \<exists>line \<in> set content.
        length (split_tab (strip line)) = 5 \<and> split_tab (strip line) = fst entry # snd entry) \<and>
   process_file_content [ascii ''001  Nowak  Jan  IT  Developer''] header_literal =
     ([ascii ''001'' @ [TAB] @ ascii ''Nowak'' @ [TAB] @ ascii ''Jan'' @ [TAB] @ ascii ''IT'' @
         [TAB] @ ascii ''Developer'' @ [NEWLINE]],
      [],
      [[ascii ''001'', ascii ''Nowak'', ascii ''Jan'', ascii ''IT'', ascii ''Developer'']]) \<and>
   read_content [ascii ''001  Nowak  Jan  IT  Developer''] =
     ([], [ascii ''001  Nowak  Jan  IT  Developer''])"
proof (intro conjI ballI)
  fix row
  assume "row \<in> set (table_of (process_file_content content h))"
  from table_origin [OF this]
  show "\<exists>line \<in> set content.
        length (re_split (strip line)) = 5 \<and> row = map replace_quote (re_split (strip line))"
    by blast
next
  fix entry
  assume "entry \<in> set (fst (read_content content))"
  then have "(fst entry, snd entry) \<in> set (fst (read_lines ([], []) content))"
    by (simp add: read_content_def)
  from read_lines_origin [OF this]
  show "\<exists>line \<in> set content.
        length (split_tab (strip line)) = 5 \<and> split_tab (strip line) = fst entry # snd entry"
    by auto
next
  show "process_file_content [ascii ''001  Nowak  Jan  IT  Developer''] header_literal =
     ([ascii ''001'' @ [TAB] @ ascii ''Nowak'' @ [TAB] @ ascii ''Jan'' @ [TAB] @ ascii ''IT'' @
         [TAB] @ ascii ''Developer'' @ [NEWLINE]],
      [],
      [[ascii ''001'', ascii ''Nowak'', ascii ''Jan'', ascii ''IT'', ascii ''Developer'']])"
    by (simp add: text_defs loop_defs)
next
  show "read_content [ascii ''001  Nowak  Jan  IT  Developer''] =
     ([], [ascii ''001  Nowak  Jan  IT  Developer''])"
    by (simp add: text_defs loop_defs)
qed

theorem row_only_from_five_fields_witness:
  "table_of (process_file_content
      [ascii ''001    Nowak  Jan'' @ [TAB] @ ascii ''IT  Developer'' @ [NEWLINE],
       ascii ''002  Kowal'' @ [NEWLINE]] header_literal) =
     [[ascii ''001'', ascii ''Nowak'', ascii ''Jan'', ascii ''IT'', ascii ''Developer'']] \<and>
   (\<exists>line \<in> set [ascii ''001    Nowak  Jan'' @ [TAB] @ ascii ''IT  Developer'' @ [NEWLINE],
       ascii ''002  Kowal'' @ [NEWLINE]].
      length (re_split (strip line)) = 5 \<and>
      [ascii ''001'', ascii ''Nowak'', ascii ''Jan'', ascii ''IT'', ascii ''Developer''] =
        map replace_quote (re_split (strip line))) \<and>
   fst (read_content
      [ascii ''001  Nowak  Jan  IT  Developer'' @ [NEWLINE],
       ascii ''002'' @ [TAB] @ ascii ''Kowal'' @ [TAB] @ ascii ''Ewa'' @ [TAB] @ ascii ''HR'' @ [TAB] @
         ascii ''Lead'' @ [NEWLINE]]) =
     [(ascii ''002'', [ascii ''Kowal'', ascii ''Ewa'', ascii ''HR'', ascii ''Lead''])] \<and>
   (\<exists>line \<in> set [ascii ''001  Nowak  Jan  IT  Developer'' @ [NEWLINE],
       ascii ''002'' @ [TAB] @ ascii ''Kowal'' @ [TAB] @ ascii ''Ewa'' @ [TAB] @ ascii ''HR'' @ [TAB] @
         ascii ''Lead'' @ [NEWLINE]].
      length (split_tab (strip line)) = 5 \<and>
      split_tab (strip line) =
        ascii ''002'' # [ascii ''Kowal'', ascii ''Ewa'', ascii ''HR'', ascii ''Lead''])"
proof -
  let ?c1 = "[ascii ''001    Nowak  Jan'' @ [TAB] @ ascii ''IT  Developer'' @ [NEWLINE],
       ascii ''002  Kowal'' @ [NEWLINE]]"
  let ?c2 = "[ascii ''001  Nowak  Jan  IT  Developer'' @ [NEWLINE],
       ascii ''002'' @ [TAB] @ ascii ''Kowal'' @ [TAB] @ ascii ''Ewa'' @ [TAB] @ ascii ''HR'' @ [TAB] @
         ascii ''Lead'' @ [NEWLINE]]"
  have a: "table_of (process_file_content ?c1 header_literal) =
     [[ascii ''001'', ascii ''Nowak'', ascii ''Jan'', ascii ''IT'', ascii ''Developer'']]"
    by (simp add: text_defs loop_defs)
  have c: "fst (read_content ?c2) =
     [(ascii ''002'', [ascii ''Kowal'', ascii ''Ewa'', ascii ''HR'', ascii ''Lead''])]"
    by (simp add: text_defs loop_defs)
  from row_only_from_five_fields [of ?c1 header_literal]
  have "\<forall>row \<in> set (table_of (process_file_content ?c1 header_literal)).
      \<exists>line \<in> set ?c1.
        length (re_split (strip line)) = 5 \<and> row = map replace_quote (re_split (strip line))"
    by (rule conjunct1)
  then have b: "\<exists>line \<in> set ?c1. length (re_split (strip line)) = 5 \<and>
      [ascii ''001'', ascii ''Nowak'', ascii ''Jan'', ascii ''IT'', ascii ''Developer''] =
        map replace_quote (re_split (strip line))"
    unfolding a by simp
  from row_only_from_five_fields [of ?c2 header_literal]
  have "\<forall>entry \<in> set (fst (read_content ?c2)).
      \<exists>line \<in> set ?c2.
        length (split_tab (strip line)) = 5 \<and> split_tab (strip line) = fst entry # snd entry"
    by (elim conjE)
  then have d: "\<exists>line \<in> set ?c2. length (split_tab (strip line)) = 5 \<and>
      split_tab (strip line) =
        ascii ''002'' # [ascii ''Kowal'', ascii ''Ewa'', ascii ''HR'', ascii ''Lead'']"
    unfolding c by simp
  show ?thesis
    by (intro conjI) (rule a, rule b, rule c, rule d)
qed

section \<open>C7: the last line of a code wins\<close>

lemma read_lines_distinct:
  "distinct (map fst d) \<Longrightarrow> distinct (map fst (fst (read_lines (d, s) content)))"
proof (induction content arbitrary: d s)
  case Nil
  then show ?case by simp
next
  case (Cons l ls)
  show ?case
    using Cons.prems by (auto simp: Let_def distinct_update intro!: Cons.IH)
qed

lemma read_lines_other_keys:
  "\<forall>l \<in> set later. strip l = header_literal \<or> length (split_tab (strip l)) \<noteq> 5 \<or>
       split_tab (strip l) ! 0 \<noteq> kod \<Longrightarrow>
     map_of (fst (read_lines (d, s) later)) kod = map_of d kod"
proof (induction later arbitrary: d s)
  case Nil
  show ?case by simp
next
  case (Cons l ls)
  from Cons.prems have rest: "\<forall>l \<in> set ls. strip l = header_literal \<or>
       length (split_tab (strip l)) \<noteq> 5 \<or> split_tab (strip l) ! 0 \<noteq> kod"
    by simp
  let ?f = "split_tab (strip l)"
  consider (skip) "strip l = header_literal \<or> length ?f \<noteq> 5"
    | (row) "strip l \<noteq> header_literal" "length ?f = 5" "?f ! 0 \<noteq> kod"
    using Cons.prems by auto
  then show ?case
  proof cases
    case skip
    then have "read_lines (d, s) (l # ls) = read_lines (d, s @ [strip l]) ls"
      by (auto simp: Let_def)
    with Cons.IH [OF rest, of d "s @ [strip l]"] show ?thesis by simp
  next
    case row
    let ?d = "AList.update (?f ! 0) [?f ! 1, ?f ! 2, ?f ! 3, ?f ! 4] d"
    from row have "read_lines (d, s) (l # ls) = read_lines (?d, s) ls"
      by (simp add: Let_def)
    with Cons.IH [OF rest, of ?d s] row(3) show ?thesis
      by (simp add: update_conv')
  qed
qed

text \<open>
  C7. When \<open>line\<close> is the last accepted line with the code \<open>kod\<close> (whatever lines with that
  code came before it), the dictionary of \<open>read_file\<close> holds at \<open>kod\<close> the four fields of
  that line, and the keys of the dictionary are distinct.
\<close>

theorem last_write_wins:
  assumes "strip line \<noteq> header_literal"
    and "split_tab (strip line) = [kod, f1, f2, f3, f4]"
    and "\<forall>l \<in> set later. strip l = header_literal \<or> length (split_tab (strip l)) \<noteq> 5 \<or>
           split_tab (strip l) ! 0 \<noteq> kod"
  shows "getitem (fst (read_content (earlier @ line # later))) kod = Inr [f1, f2, f3, f4] \<and>
         distinct (map fst (fst (read_content (earlier @ line # later))))"
proof -
  obtain d s where b: "read_content earlier = (d, s)" by (cases "read_content earlier")
  have r: "read_lines (d, s) [line] = (AList.update kod [f1, f2, f3, f4] d, s)"
    using assms(1,2) by (rule read_row_line)
  have e: "read_content (earlier @ line # later) =
           read_lines (AList.update kod [f1, f2, f3, f4] d, s) later"
    unfolding read_content_insert b r by simp
  have "map_of (fst (read_content (earlier @ line # later))) kod =
        map_of (AList.update kod [f1, f2, f3, f4] d) kod"
    unfolding e using assms(3) by (rule read_lines_other_keys)
  then have "map_of (fst (read_content (earlier @ line # later))) kod = Some [f1, f2, f3, f4]"
    by (simp add: update_conv')
  then have g: "getitem (fst (read_content (earlier @ line # later))) kod = Inr [f1, f2, f3, f4]"
    by (simp add: getitem_def)
  have "distinct (map fst (fst (read_lines ([], []) (earlier @ line # later))))"
    by (rule read_lines_distinct) simp
  then have "distinct (map fst (fst (read_content (earlier @ line # later))))"
    by (simp add: read_content_def)
  with g show ?thesis by simp
qed

theorem last_write_wins_witness:
  "strip (ascii ''001'' @ [TAB] @ ascii ''Nowak'' @ [TAB] @ ascii ''Jan'' @ [TAB] @ ascii ''IT'' @
      [TAB] @ ascii ''Manager'' @ [NEWLINE]) \<noteq> header_literal \<and>
   split_tab (strip (ascii ''001'' @ [TAB] @ ascii ''Nowak'' @ [TAB] @ ascii ''Jan'' @ [TAB] @
      ascii ''IT'' @ [TAB] @ ascii ''Manager'' @ [NEWLINE])) =
     [ascii ''001'', ascii ''Nowak'', ascii ''Jan'', ascii ''IT'', ascii ''Manager''] \<and>
   read_content
     [ascii ''001'' @ [TAB] @ ascii ''Nowak'' @ [TAB] @ ascii ''Jan'' @ [TAB] @ ascii ''IT'' @
        [TAB] @ ascii ''Dev'' @ [NEWLINE],
      ascii ''002'' @ [TAB] @ ascii ''Kowal'' @ [TAB] @ ascii ''Ewa'' @ [TAB] @ ascii ''HR'' @
        [TAB] @ ascii ''Lead'' @ [NEWLINE],
      ascii ''001'' @ [TAB] @ ascii ''Nowak'' @ [TAB] @ ascii ''Jan'' @ [TAB] @ ascii ''IT'' @
        [TAB] @ ascii ''Manager'' @ [NEWLINE],
      ascii ''003'' @ [TAB] @ ascii ''Wilk'' @ [NEWLINE]] =
     ([(ascii ''001'', [ascii ''Nowak'', ascii ''Jan'', ascii ''IT'', ascii ''Manager'']),
       (ascii ''002'', [ascii ''Kowal'', ascii ''Ewa'', ascii ''HR'', ascii ''Lead''])],
      [ascii ''003'' @ [TAB] @ ascii ''Wilk'']) \<and>
   getitem (fst (read_content
     [ascii ''001'' @ [TAB] @ ascii ''Nowak'' @ [TAB] @ ascii ''Jan'' @ [TAB] @ ascii ''IT'' @
        [TAB] @ ascii ''Dev'' @ [NEWLINE],
      ascii ''002'' @ [TAB] @ ascii ''Kowal'' @ [TAB] @ ascii ''Ewa'' @ [TAB] @ ascii ''HR'' @
        [TAB] @ ascii ''Lead'' @ [NEWLINE],
      ascii ''001'' @ [TAB] @ ascii ''Nowak'' @ [TAB] @ ascii ''Jan'' @ [TAB] @ ascii ''IT'' @
        [TAB] @ ascii ''Manager'' @ [NEWLINE],
      ascii ''003'' @ [TAB] @ ascii ''Wilk'' @ [NEWLINE]])) (ascii ''001'') =
     Inr [ascii ''Nowak'', ascii ''Jan'', ascii ''IT'', ascii ''Manager'']"
proof -
  let ?l1 = "ascii ''001'' @ [TAB] @ ascii ''Nowak'' @ [TAB] @ ascii ''Jan'' @ [TAB] @ ascii ''IT'' @
        [TAB] @ ascii ''Dev'' @ [NEWLINE]"
  let ?l2 = "ascii ''002'' @ [TAB] @ ascii ''Kowal'' @ [TAB] @ ascii ''Ewa'' @ [TAB] @ ascii ''HR'' @
        [TAB] @ ascii ''Lead'' @ [NEWLINE]"
  let ?l3 = "ascii ''001'' @ [TAB] @ ascii ''Nowak'' @ [TAB] @ ascii ''Jan'' @ [TAB] @ ascii ''IT'' @
        [TAB] @ ascii ''Manager'' @ [NEWLINE]"
  let ?l4 = "ascii ''003'' @ [TAB] @ ascii ''Wilk'' @ [NEWLINE]"
  have h1: "strip ?l3 \<noteq> header_literal"
    by (simp add: text_defs)
  have h2: "split_tab (strip ?l3) =
     [ascii ''001'', ascii ''Nowak'', ascii ''Jan'', ascii ''IT'', ascii ''Manager'']"
    by (simp add: text_defs)
  have h3: "\<forall>l \<in> set [?l4]. strip l = header_literal \<or> length (split_tab (strip l)) \<noteq> 5 \<or>
           split_tab (strip l) ! 0 \<noteq> ascii ''001''"
    by (simp add: text_defs)
  have e: "read_content [?l1, ?l2, ?l3, ?l4] =
     ([(ascii ''001'', [ascii ''Nowak'', ascii ''Jan'', ascii ''IT'', ascii ''Manager'']),
       (ascii ''002'', [ascii ''Kowal'', ascii ''Ewa'', ascii ''HR'', ascii ''Lead''])],
      [ascii ''003'' @ [TAB] @ ascii ''Wilk''])"
    by (simp add: text_defs loop_defs)
  from last_write_wins [OF h1 h2 h3, of "[?l1, ?l2]"]
  have g: "getitem (fst (read_content [?l1, ?l2, ?l3, ?l4])) (ascii ''001'') =
     Inr [ascii ''Nowak'', ascii ''Jan'', ascii ''IT'', ascii ''Manager'']"
    by simp
  show ?thesis
    by (intro conjI) (rule h1, rule h2, rule e, rule g)
qed

section \<open>C9: the converter's warning\<close>

lemma not_saved_from_debug: "r \<in> set (not_saved_from idx skipped) \<Longrightarrow> fst r = DEBUG"
  by (induction skipped arbitrary: idx) auto

lemma configure_logging_warning:
  "(\<exists>r \<in> set (configure_logging verbose records). fst r = WARNING) \<longleftrightarrow>
   (\<exists>r \<in> set records. fst r = WARNING)"
  by (fastforce simp: configure_logging_def)

text \<open>
  C9, as the code has it. When the converter has written its output, a warning is logged
  exactly when the number of written lines differs from the number of lines read. The
  code has no test for zero written rows: a file that decodes to no line at all (a byte
  order mark alone) gives an empty output and no warning.
\<close>

theorem discrepancy_iff_counts_differ:
  assumes "output_file (convert_to_utf8 f write_error verbose show_table) = Some written"
  shows "\<exists>content. readlines f = Inr content \<and>
           written = cleaned_of (process_file_content content (strip header_literal)) \<and>
           ((\<exists>r \<in> set (conv_log (convert_to_utf8 f write_error verbose show_table)).
               fst r = WARNING) \<longleftrightarrow>
            length written \<noteq> length content)"
proof -
  from assms obtain u where v: "validate_file f = Inr u"
    by (cases "validate_file f") (simp_all add: convert_to_utf8_def)
  from assms v obtain content where c: "readlines f = Inr content"
    by (cases "readlines f") (simp_all add: convert_to_utf8_def)
  from assms v c have w: "write_error = None"
    by (cases write_error) (simp_all add: convert_to_utf8_def Let_def split: prod.splits)
  obtain cl sk tb where p: "process_file_content content (strip header_literal) = (cl, sk, tb)"
    by (cases "process_file_content content (strip header_literal)")
  from assms v c w p have wr: "written = cl"
    by (simp add: convert_to_utf8_def)
  have nd: "\<not> (\<exists>r \<in> set (not_saved_from 1 sk). fst r = WARNING)"
    using not_saved_from_debug by fastforce
  have lg: "(\<exists>r \<in> set (conv_log (convert_to_utf8 f write_error verbose show_table)).
               fst r = WARNING) \<longleftrightarrow> length cl \<noteq> length content"
    using nd
    by (auto simp: convert_to_utf8_def v c w p configure_logging_warning)
  from c wr lg p show ?thesis by (simp add: cleaned_of_def)
qed

theorem discrepancy_iff_counts_differ_witness:
  "output_file (convert_to_utf8
      \<lparr>path_exists = True, path_getsize = Inr 40, best_encoding = Inr None,
        readlines = Inr [ascii ''1'' @ [TAB] @ ascii ''a'' @ [TAB] @ ascii ''b'' @ [TAB] @
                          ascii ''c'' @ [TAB] @ ascii ''d'' @ [NEWLINE],
                        ascii ''2'' @ [TAB] @ ascii ''e'' @ [NEWLINE]]\<rparr>
      None False False) =
     Some [ascii ''1'' @ [TAB] @ ascii ''a'' @ [TAB] @ ascii ''b'' @ [TAB] @ ascii ''c'' @ [TAB] @
             ascii ''d'' @ [NEWLINE]] \<and>
   (\<exists>r \<in> set (conv_log (convert_to_utf8
      \<lparr>path_exists = True, path_getsize = Inr 40, best_encoding = Inr None,
        readlines = Inr [ascii ''1'' @ [TAB] @ ascii ''a'' @ [TAB] @ ascii ''b'' @ [TAB] @
                          ascii ''c'' @ [TAB] @ ascii ''d'' @ [NEWLINE],
                        ascii ''2'' @ [TAB] @ ascii ''e'' @ [NEWLINE]]\<rparr>
      None False False)). fst r = WARNING)"
proof -
  let ?f = "\<lparr>path_exists = True, path_getsize = Inr 40, best_encoding = Inr None,
        readlines = Inr [ascii ''1'' @ [TAB] @ ascii ''a'' @ [TAB] @ ascii ''b'' @ [TAB] @
                          ascii ''c'' @ [TAB] @ ascii ''d'' @ [NEWLINE],
                        ascii ''2'' @ [TAB] @ ascii ''e'' @ [NEWLINE]]\<rparr>"
  let ?w = "[ascii ''1'' @ [TAB] @ ascii ''a'' @ [TAB] @ ascii ''b'' @ [TAB] @ ascii ''c'' @ [TAB] @
             ascii ''d'' @ [NEWLINE]]"
  have o: "output_file (convert_to_utf8 ?f None False False) = Some ?w"
    by (simp add: convert_to_utf8_def validate_file_def text_defs loop_defs)
  from discrepancy_iff_counts_differ [OF o] obtain content where
    c: "readlines ?f = Inr content" and
    i: "(\<exists>r \<in> set (conv_log (convert_to_utf8 ?f None False False)). fst r = WARNING) \<longleftrightarrow>
        length ?w \<noteq> length content"
    by (elim exE conjE) (rule that)
  from c have "length content = 2" by auto
  with i have "\<exists>r \<in> set (conv_log (convert_to_utf8 ?f None False False)). fst r = WARNING"
    by simp
  with o show ?thesis by (intro conjI)
qed

theorem discrepancy_zero_rows_counterexample:
  "output_file (convert_to_utf8
      \<lparr>path_exists = True, path_getsize = Inr 2, best_encoding = Inr None, readlines = Inr []\<rparr>
      None True False) = Some [] \<and>
   conv_log (convert_to_utf8
      \<lparr>path_exists = True, path_getsize = Inr 2, best_encoding = Inr None, readlines = Inr []\<rparr>
      None True False) = [(INFO, FileOpened), (DEBUG, LinesRead 0), (INFO, OutputSaved)]"
  by (simp add: convert_to_utf8_def validate_file_def process_file_content_def
      configure_logging_def)

section \<open>C10: errors in the comparison tool\<close>

lemma configure_logging_critical:
  "(\<exists>r \<in> set (configure_logging verbose records). fst r = CRITICAL) \<longleftrightarrow>
   (\<exists>r \<in> set records. fst r = CRITICAL)"
  by (fastforce simp: configure_logging_def)

lemma read_file_log_levels: "r \<in> set (snd (read_file f)) \<Longrightarrow> fst r = INFO \<or> fst r = ERROR"
  by (auto simp: read_file_def detect_encoding_def split: sum.splits option.splits)

text \<open>
  C10, as the code has it. Only what \<open>validate_file\<close> raises ends the run: a missing or
  empty file is logged as an error, anything else as critical, and the exit code is 1.
  Once both files are validated the run always completes with no exit code and no critical
  record: \<open>read_file\<close> catches every exception of the detection, the opening and the
  decoding itself, logs it as an error and answers with an empty dictionary and no skipped
  lines, and \<open>find_differences\<close> does not raise. A file that is read gives the dictionary
  and the skipped lines of its lines.
\<close>

theorem differ_error_policy:
  "(validate_file file1 = Inl e \<or> (validate_file file1 = Inr () \<and> validate_file file2 = Inl e) \<longrightarrow>
      compare_files file1 file2 verbose show_tables =
        \<lparr>cmp_log = [if e = FileNotFoundError \<or> isa_ValueError e then (ERROR, Raised e)
                     else (CRITICAL, Unexpected e)],
         tables = [], exit_code = Some 1\<rparr>) \<and>
   (validate_file file1 = Inr () \<and> validate_file file2 = Inr () \<longrightarrow>
      exit_code (compare_files file1 file2 verbose show_tables) = None \<and>
      \<not> (\<exists>r \<in> set (cmp_log (compare_files file1 file2 verbose show_tables)). fst r = CRITICAL) \<and>
      (INFO, Finished) \<in> set (cmp_log (compare_files file1 file2 verbose show_tables))) \<and>
   (best_encoding file1 = Inl e \<or>
      (best_encoding file1 = Inr (Some encoding) \<and> readlines file1 = Inl e) \<longrightarrow>
      fst (read_file file1) = ([], []) \<and> (ERROR, ReadFailed e) \<in> set (snd (read_file file1))) \<and>
   (best_encoding file1 = Inr None \<longrightarrow>
      fst (read_file file1) = ([], []) \<and>
      (ERROR, ReadFailed ValueError) \<in> set (snd (read_file file1))) \<and>
   (best_encoding file1 = Inr (Some encoding) \<and> readlines file1 = Inr content \<longrightarrow>
      fst (read_file file1) = read_content content \<and>
      snd (read_file file1) = [(INFO, EncodingDetected encoding)])"
proof (intro conjI impI)
  assume "validate_file file1 = Inl e \<or> (validate_file file1 = Inr () \<and> validate_file file2 = Inl e)"
  then show "compare_files file1 file2 verbose show_tables =
        \<lparr>cmp_log = [if e = FileNotFoundError \<or> isa_ValueError e then (ERROR, Raised e)
                     else (CRITICAL, Unexpected e)],
         tables = [], exit_code = Some 1\<rparr>"
    by (auto simp: compare_files_def comparison_handlers_def configure_logging_def)
next
  assume v: "validate_file file1 = Inr () \<and> validate_file file2 = Inr ()"
  obtain c1 s1 l1 where r1: "read_file file1 = ((c1, s1), l1)"
    by (cases "read_file file1") auto
  obtain c2 s2 l2 where r2: "read_file file2 = ((c2, s2), l2)"
    by (cases "read_file file2") auto
  obtain u1 u2 m where d: "find_differences c1 c2 = Inr (u1, u2, m)"
    using find_differences_total [of c1 c2] by blast
  have l1: "\<forall>r \<in> set l1. fst r \<noteq> CRITICAL"
    using read_file_log_levels [of _ file1] r1 by fastforce
  have l2: "\<forall>r \<in> set l2. fst r \<noteq> CRITICAL"
    using read_file_log_levels [of _ file2] r2 by fastforce
  show "exit_code (compare_files file1 file2 verbose show_tables) = None"
    using v by (simp add: compare_files_def r1 r2 d)
  show "\<not> (\<exists>r \<in> set (cmp_log (compare_files file1 file2 verbose show_tables)). fst r = CRITICAL)"
    using v l1 l2 by (auto simp: compare_files_def r1 r2 d configure_logging_critical)
  show "(INFO, Finished) \<in> set (cmp_log (compare_files file1 file2 verbose show_tables))"
    using v by (simp add: compare_files_def r1 r2 d configure_logging_def)
next
  assume "best_encoding file1 = Inl e \<or>
      (best_encoding file1 = Inr (Some encoding) \<and> readlines file1 = Inl e)"
  then show "fst (read_file file1) = ([], [])"
    by (auto simp: read_file_def detect_encoding_def split: sum.splits option.splits)
next
  assume "best_encoding file1 = Inl e \<or>
      (best_encoding file1 = Inr (Some encoding) \<and> readlines file1 = Inl e)"
  then show "(ERROR, ReadFailed e) \<in> set (snd (read_file file1))"
    by (auto simp: read_file_def detect_encoding_def split: sum.splits option.splits)
next
  assume "best_encoding file1 = Inr None"
  then show "fst (read_file file1) = ([], [])"
    by (simp add: read_file_def detect_encoding_def)
next
  assume "best_encoding file1 = Inr None"
  then show "(ERROR, ReadFailed ValueError) \<in> set (snd (read_file file1))"
    by (simp add: read_file_def detect_encoding_def)
next
  assume "best_encoding file1 = Inr (Some encoding) \<and> readlines file1 = Inr content"
  then show "fst (read_file file1) = read_content content"
    by (simp add: read_file_def detect_encoding_def)
next
  assume "best_encoding file1 = Inr (Some encoding) \<and> readlines file1 = Inr content"
  then show "snd (read_file file1) = [(INFO, EncodingDetected encoding)]"
    by (simp add: read_file_def detect_encoding_def)
qed

theorem differ_error_policy_witness:
  "compare_files
     \<lparr>path_exists = False, path_getsize = Inl FileNotFoundError, best_encoding = Inr None,
       readlines = Inl FileNotFoundError\<rparr>
     \<lparr>path_exists = True, path_getsize = Inr 10, best_encoding = Inr (Some ''utf_8''),
       readlines = Inr [ascii ''1'' @ [TAB] @ ascii ''a'' @ [TAB] @ ascii ''b'' @ [TAB] @
                         ascii ''c'' @ [TAB] @ ascii ''d'' @ [NEWLINE]]\<rparr>
     False True =
     \<lparr>cmp_log = [(ERROR, Raised FileNotFoundError)], tables = [], exit_code = Some 1\<rparr> \<and>
   exit_code (compare_files
     \<lparr>path_exists = True, path_getsize = Inr 10, best_encoding = Inr (Some ''utf_8''),
       readlines = Inl UnicodeDecodeError\<rparr>
     \<lparr>path_exists = True, path_getsize = Inr 10, best_encoding = Inr (Some ''utf_8''),
       readlines = Inr [ascii ''1'' @ [TAB] @ ascii ''a'' @ [TAB] @ ascii ''b'' @ [TAB] @
                         ascii ''c'' @ [TAB] @ ascii ''d'' @ [NEWLINE]]\<rparr>
     False True) = None \<and>
   fst (read_file
     \<lparr>path_exists = True, path_getsize = Inr 10, best_encoding = Inr (Some ''utf_8''),
       readlines = Inl UnicodeDecodeError\<rparr>) = ([], []) \<and>
   fst (read_file
     \<lparr>path_exists = True, path_getsize = Inr 10, best_encoding = Inr None,
       readlines = Inr []\<rparr>) = ([], []) \<and>
   fst (read_file
     \<lparr>path_exists = True, path_getsize = Inr 10, best_encoding = Inr (Some ''utf_8''),
       readlines = Inr [ascii ''1'' @ [TAB] @ ascii ''a'' @ [TAB] @ ascii ''b'' @ [TAB] @
                         ascii ''c'' @ [TAB] @ ascii ''d'' @ [NEWLINE]]\<rparr>) =
     read_content [ascii ''1'' @ [TAB] @ ascii ''a'' @ [TAB] @ ascii ''b'' @ [TAB] @
                         ascii ''c'' @ [TAB] @ ascii ''d'' @ [NEWLINE]]"
proof -
  let ?missing = "\<lparr>path_exists = False, path_getsize = Inl FileNotFoundError,
       best_encoding = Inr None, readlines = Inl FileNotFoundError\<rparr>"
  let ?lines = "[ascii ''1'' @ [TAB] @ ascii ''a'' @ [TAB] @ ascii ''b'' @ [TAB] @
                         ascii ''c'' @ [TAB] @ ascii ''d'' @ [NEWLINE]]"
  let ?good = "\<lparr>path_exists = True, path_getsize = Inr 10, best_encoding = Inr (Some ''utf_8''),
       readlines = Inr ?lines\<rparr>"
  let ?undecodable = "\<lparr>path_exists = True, path_getsize = Inr 10,
       best_encoding = Inr (Some ''utf_8''), readlines = Inl UnicodeDecodeError\<rparr>"
  let ?undetected = "\<lparr>path_exists = True, path_getsize = Inr 10, best_encoding = Inr None,
       readlines = Inr []\<rparr>"
  from differ_error_policy [of ?missing FileNotFoundError ?good False True "''utf_8''" "[]"]
  have a: "compare_files ?missing ?good False True =
     \<lparr>cmp_log = [(ERROR, Raised FileNotFoundError)], tables = [], exit_code = Some 1\<rparr>"
    by (simp add: validate_file_def)
  from differ_error_policy [of ?undecodable UnicodeDecodeError ?good False True "''utf_8''" "[]"]
  have b: "exit_code (compare_files ?undecodable ?good False True) = None"
    and c: "fst (read_file ?undecodable) = ([], [])"
    by (simp_all add: validate_file_def)
  from differ_error_policy [of ?undetected UnicodeDecodeError ?good False True "''utf_8''" "[]"]
  have d: "fst (read_file ?undetected) = ([], [])"
    by simp
  from differ_error_policy [of ?good UnicodeDecodeError ?good False True "''utf_8''" ?lines]
  have e: "fst (read_file ?good) = read_content ?lines"
    by simp
  show ?thesis
    by (intro conjI) (rule a, rule b, rule c, rule d, rule e)
qed

theorem differ_read_error_counterexample:
  "compare_files
     \<lparr>path_exists = True, path_getsize = Inr 10, best_encoding = Inr (Some ''utf_8''),
       readlines = Inl UnicodeDecodeError\<rparr>
     \<lparr>path_exists = True, path_getsize = Inr 10, best_encoding = Inr (Some ''utf_8''),
       readlines = Inr [ascii ''1'' @ [TAB] @ ascii ''a'' @ [TAB] @ ascii ''b'' @ [TAB] @
                         ascii ''c'' @ [TAB] @ ascii ''d'' @ [NEWLINE]]\<rparr>
     False True =
   \<lparr>cmp_log =
      [(INFO, EncodingDetected ''utf_8''), (ERROR, ReadFailed UnicodeDecodeError),
       (INFO, EncodingDetected ''utf_8''), (INFO, FileRead 1), (INFO, FileRead 2),
       (INFO, Finished)],
    tables = [(Unique_File2, [(ascii ''1'', [ascii ''a'', ascii ''b'', ascii ''c'', ascii ''d''], True)])],
    exit_code = None\<rparr>"
  by (simp add: compare_files_def validate_file_def read_file_def detect_encoding_def
      configure_logging_def rows_for.simps modified_for.simps text_defs loop_defs diff_defs)

section \<open>C5: reading the converter's output again\<close>

lemma strip_line_end:
  assumes "s \<noteq> []" and "\<not> isspace (hd s)" and "\<not> isspace (last s)"
  shows "strip (s @ [NEWLINE]) = s"
proof -
  from assms(1,2) have a: "dropWhile isspace (s @ [NEWLINE]) = s @ [NEWLINE]"
    by (cases s) auto
  have n: "isspace NEWLINE" by (simp add: isspace_def NEWLINE_def)
  from assms(1,3) have b: "dropWhile isspace (rev s) = rev s"
    by (cases s rule: rev_cases) auto
  show ?thesis
    unfolding strip_def a by (simp add: n b)
qed

lemma re_split_from_plain:
  "TAB \<notin> set f \<Longrightarrow> \<not> double_space f \<Longrightarrow> re_split_from cur f = [cur @ f]"
proof (induction f arbitrary: cur)
  case Nil
  show ?case by simp
next
  case (Cons c f)
  from Cons.prems have t: "c \<noteq> TAB" "TAB \<notin> set f" by auto
  from Cons.prems(2) have d: "\<not> double_space f" by (cases f) auto
  from Cons.prems(2) have s: "\<not> (c = SPACE \<and> f \<noteq> [] \<and> hd f = SPACE)" by (cases f) auto
  from t s Cons.IH [OF t(2) d, of "cur @ [c]"] show ?case by auto
qed

lemma re_split_from_field:
  "TAB \<notin> set f \<Longrightarrow> \<not> double_space f \<Longrightarrow>
     re_split_from cur (f @ TAB # rest) = (cur @ f) # re_split_from [] rest"
proof (induction f arbitrary: cur)
  case Nil
  show ?case by simp
next
  case (Cons c f)
  from Cons.prems have t: "c \<noteq> TAB" "TAB \<notin> set f" by auto
  from Cons.prems(2) have d: "\<not> double_space f" by (cases f) auto
  have ts: "TAB \<noteq> SPACE" by (simp add: TAB_def SPACE_def)
  from Cons.prems(2) ts have s: "\<not> (c = SPACE \<and> hd (f @ TAB # rest) = SPACE)"
    by (cases f) auto
  from t s Cons.IH [OF t(2) d, of "cur @ [c]"] show ?case by auto
qed

lemma re_split_join_tab:
  "fs \<noteq> [] \<Longrightarrow> \<forall>f \<in> set fs. TAB \<notin> set f \<and> \<not> double_space f \<Longrightarrow>
     re_split (join_tab fs) = fs"
proof (induction fs rule: join_tab.induct)
  case 1
  then show ?case by simp
next
  case (2 f)
  then show ?case by (simp add: re_split_def re_split_from_plain)
next
  case (3 f g fs)
  then have "re_split (join_tab (g # fs)) = g # fs" by simp
  with 3 show ?case by (simp add: re_split_def re_split_from_field)
qed

lemma re_split_from_no_tab:
  "TAB \<notin> set cur \<Longrightarrow> p \<in> set (re_split_from cur s) \<Longrightarrow> TAB \<notin> set p"
proof (induction cur s rule: re_split_from.induct)
  case (1 cur)
  then show ?case by simp
next
  case (2 cur c cs)
  then show ?case by (auto split: if_splits)
qed

lemma hd_join_tab: "fs \<noteq> [] \<Longrightarrow> hd fs \<noteq> [] \<Longrightarrow> join_tab fs \<noteq> [] \<and> hd (join_tab fs) = hd (hd fs)"
  by (induction fs rule: join_tab.induct) auto

lemma last_join_tab: "fs \<noteq> [] \<Longrightarrow> last fs \<noteq> [] \<Longrightarrow> last (join_tab fs) = last (last fs)"
proof (induction fs rule: join_tab.induct)
  case 1
  then show ?case by simp
next
  case (2 f)
  then show ?case by simp
next
  case (3 f g fs)
  then have "join_tab (g # fs) \<noteq> []" by (cases fs) auto
  with 3 show ?case by simp
qed

lemma replace_quote_id: "QUOTE \<notin> set f \<Longrightarrow> replace_quote f = f"
  by (induction f) (auto simp: replace_quote_def)

lemma table_row_shape:
  assumes "row \<in> set (table_of (process_file_content content h))"
  shows "length row = 5 \<and> (\<forall>f \<in> set row. TAB \<notin> set f \<and> QUOTE \<notin> set f)"
proof -
  from table_origin [OF assms] obtain line where
    l: "length (re_split (strip line)) = 5" and
    r: "row = map replace_quote (re_split (strip line))"
    by blast
  have "TAB \<notin> set p" if "p \<in> set (re_split (strip line))" for p
    using that re_split_from_no_tab [of "[]" p "strip line"] by (simp add: re_split_def)
  then have "\<forall>f \<in> set row. TAB \<notin> set f"
    unfolding r by (auto simp: replace_quote_def)
  moreover have "\<forall>f \<in> set row. QUOTE \<notin> set f"
    unfolding r by (auto simp: replace_quote_def)
  ultimately show ?thesis using l r by auto
qed

lemma output_line_read_again:
  assumes len: "length row = 5"
    and clean: "\<forall>f \<in> set row. TAB \<notin> set f \<and> QUOTE \<notin> set f"
    and st: "stable_row h row"
  shows "process_file_content [join_tab row @ [NEWLINE]] h =
           ([join_tab row @ [NEWLINE]], [], [row])"
proof -
  from st have ne: "row \<noteq> []" and h1: "hd row \<noteq> []" and h2: "\<not> isspace (hd (hd row))"
    and l1: "last row \<noteq> []" and l2: "\<not> isspace (last (last row))"
    and ds: "\<forall>f \<in> set row. \<not> double_space f"
    and nh: "re_sub_ws (join_tab row) \<noteq> re_sub_ws h"
    by (simp_all add: stable_row_def list_all_iff)
  from hd_join_tab [OF ne h1] have j: "join_tab row \<noteq> []" "hd (join_tab row) = hd (hd row)"
    by simp_all
  from last_join_tab [OF ne l1] have k: "last (join_tab row) = last (last row)" .
  have s: "strip (join_tab row @ [NEWLINE]) = join_tab row"
    using j h2 l2 k by (intro strip_line_end) simp_all
  have sp: "re_split (join_tab row) = row"
    using ne clean ds by (intro re_split_join_tab) auto
  have q: "map replace_quote row = row"
    using clean by (simp add: map_idI replace_quote_id)
  from nh have a: "re_sub_ws (strip (join_tab row @ [NEWLINE])) \<noteq> re_sub_ws h"
    unfolding s .
  from len have b: "length (re_split (strip (join_tab row @ [NEWLINE]))) = 5"
    unfolding s sp .
  from process_row_line [OF a b] show ?thesis
    unfolding s sp q .
qed

lemma output_lines_read_again:
  assumes "\<forall>row \<in> set rows. length row = 5 \<and> (\<forall>f \<in> set row. TAB \<notin> set f \<and> QUOTE \<notin> set f) \<and>
             stable_row h row"
  shows "process_file_content (map (\<lambda>row. join_tab row @ [NEWLINE]) rows) h =
           (map (\<lambda>row. join_tab row @ [NEWLINE]) rows, [], rows)"
  using assms
proof (induction rows)
  case Nil
  show ?case by (simp add: process_file_content_Nil)
next
  case (Cons r rs)
  from Cons.prems have 1: "process_file_content [join_tab r @ [NEWLINE]] h =
           ([join_tab r @ [NEWLINE]], [], [r])"
    by (intro output_line_read_again) simp_all
  from Cons have 2: "process_file_content (map (\<lambda>row. join_tab row @ [NEWLINE]) rs) h =
           (map (\<lambda>row. join_tab row @ [NEWLINE]) rs, [], rs)"
    by simp
  have 3: "map (\<lambda>row. join_tab row @ [NEWLINE]) (r # rs) =
           (join_tab r @ [NEWLINE]) # map (\<lambda>row. join_tab row @ [NEWLINE]) rs"
    by simp
  show ?case
    unfolding 3 process_file_content_Cons
      [of "join_tab r @ [NEWLINE]" "map (\<lambda>row. join_tab row @ [NEWLINE]) rs" h] 1 2
    by (simp add: cleaned_of_def skipped_of_def table_of_def)
qed

text \<open>Rows of lines without a double quote are stable.\<close>

lemma double_space_snoc:
  "double_space (xs @ [c]) \<longleftrightarrow> double_space xs \<or> (xs \<noteq> [] \<and> last xs = SPACE \<and> c = SPACE)"
  by (induction xs rule: double_space.induct) auto

lemma re_split_from_no_double_space:
  "\<not> double_space cur \<Longrightarrow> (cur \<noteq> [] \<and> last cur = SPACE \<longrightarrow> s = [] \<or> hd s \<noteq> SPACE) \<Longrightarrow>
     p \<in> set (re_split_from cur s) \<Longrightarrow> \<not> double_space p"
proof (induction cur s rule: re_split_from.induct)
  case (1 cur)
  then show ?case by simp
next
  case (2 cur c cs)
  show ?case
  proof (cases "c = TAB")
    case True
    with 2 show ?thesis by auto
  next
    case nt: False
    show ?thesis
    proof (cases "c = SPACE \<and> cs \<noteq> [] \<and> hd cs = SPACE")
      case True
      with nt 2 show ?thesis by auto
    next
      case False
      have a: "\<not> double_space (cur @ [c])"
        using "2.prems"(1,2) by (auto simp: double_space_snoc)
      have b: "cur @ [c] \<noteq> [] \<and> last (cur @ [c]) = SPACE \<longrightarrow> cs = [] \<or> hd cs \<noteq> SPACE"
        using False by auto
      from "2.prems"(3) nt False have "p \<in> set (re_split_from (cur @ [c]) cs)" by simp
      from "2.IH"(3) [OF nt False a b this] show ?thesis .
    qed
  qed
qed

lemma re_split_from_chars:
  "p \<in> set (re_split_from cur s) \<Longrightarrow> set p \<subseteq> set cur \<union> set s"
proof (induction cur s rule: re_split_from.induct)
  case (1 cur)
  then show ?case by simp
next
  case (2 cur c cs)
  show ?case
  proof (cases "c = TAB")
    case True
    with 2 show ?thesis by auto
  next
    case nt: False
    show ?thesis
    proof (cases "c = SPACE \<and> cs \<noteq> [] \<and> hd cs = SPACE")
      case True
      with nt "2.prems" have "p = cur \<or> p \<in> set (re_split_from [] (dropWhile (\<lambda>d. d = SPACE) cs))"
        by auto
      then show ?thesis
      proof
        assume "p = cur" then show ?thesis by auto
      next
        assume "p \<in> set (re_split_from [] (dropWhile (\<lambda>d. d = SPACE) cs))"
        from "2.IH"(2) [OF nt True this] have "set p \<subseteq> set (dropWhile (\<lambda>d. d = SPACE) cs)" by simp
        with set_dropWhileD [of _ "\<lambda>d. d = SPACE" cs] show ?thesis by auto
      qed
    next
      case False
      with nt "2.prems" have "p \<in> set (re_split_from (cur @ [c]) cs)" by simp
      from "2.IH"(3) [OF nt False this] show ?thesis by auto
    qed
  qed
qed

lemma re_split_from_hd:
  "\<exists>t. hd (re_split_from cur s) = cur @ t"
proof (induction cur s rule: re_split_from.induct)
  case (1 cur)
  show ?case by simp
next
  case (2 cur c cs)
  then show ?case by auto
qed

lemma re_split_from_nonempty: "re_split_from cur s \<noteq> []"
  by (induction cur s rule: re_split_from.induct) auto

lemma dropWhile_keeps_last:
  "cs \<noteq> [] \<Longrightarrow> \<not> P (last cs) \<Longrightarrow> dropWhile P cs \<noteq> [] \<and> last (dropWhile P cs) = last cs"
  by (induction cs) (auto split: if_splits)

lemma re_split_from_last:
  "s \<noteq> [] \<Longrightarrow> last s \<noteq> TAB \<Longrightarrow> last s \<noteq> SPACE \<Longrightarrow>
     last (re_split_from cur s) \<noteq> [] \<and> last (last (re_split_from cur s)) = last s"
proof (induction cur s rule: re_split_from.induct)
  case (1 cur)
  then show ?case by simp
next
  case (2 cur c cs)
  show ?case
  proof (cases "cs = []")
    case True
    with "2.prems" show ?thesis by simp
  next
    case ne: False
    with "2.prems" have l: "last cs \<noteq> TAB" "last cs \<noteq> SPACE" by auto
    show ?thesis
    proof (cases "c = TAB")
      case True
      with "2.IH"(1) [OF True ne l] ne show ?thesis
        by (simp add: re_split_from_nonempty)
    next
      case nt: False
      show ?thesis
      proof (cases "c = SPACE \<and> cs \<noteq> [] \<and> hd cs = SPACE")
        case True
        from dropWhile_keeps_last [of cs "\<lambda>d. d = SPACE"] ne l
        have d: "dropWhile (\<lambda>d. d = SPACE) cs \<noteq> []"
          "last (dropWhile (\<lambda>d. d = SPACE) cs) = last cs" by auto
        from nt True have "re_split_from cur (c # cs) =
            cur # re_split_from [] (dropWhile (\<lambda>d. d = SPACE) cs)"
          by auto
        with "2.IH"(2) [OF nt True d(1)] d(2) l ne show ?thesis
          by (simp add: re_split_from_nonempty)
      next
        case False
        from nt False have "re_split_from cur (c # cs) = re_split_from (cur @ [c]) cs"
          by auto
        with "2.IH"(3) [OF nt False ne l] ne show ?thesis by simp
      qed
    qed
  qed
qed

lemma re_sub_ws_append: "re_sub_ws (a @ b) = re_sub_ws a @ re_sub_ws b"
  by (simp add: re_sub_ws_def)

lemma re_sub_ws_space: "isspace c \<Longrightarrow> re_sub_ws (c # s) = re_sub_ws s"
  by (simp add: re_sub_ws_def)

lemma re_sub_ws_spaces: "re_sub_ws (dropWhile (\<lambda>d. d = SPACE) s) = re_sub_ws s"
  by (induction s) (auto simp: re_sub_ws_def isspace_def SPACE_def)

lemma re_sub_ws_join_Cons:
  "rs \<noteq> [] \<Longrightarrow> re_sub_ws (join_tab (p # rs)) = re_sub_ws p @ re_sub_ws (join_tab rs)"
  by (cases rs) (auto simp: re_sub_ws_def isspace_def TAB_def)

lemma re_sub_ws_split:
  "re_sub_ws (join_tab (re_split_from cur s)) = re_sub_ws (cur @ s)"
proof (induction cur s rule: re_split_from.induct)
  case (1 cur)
  show ?case by simp
next
  case (2 cur c cs)
  have sp: "isspace SPACE" "isspace TAB" by (simp_all add: isspace_def SPACE_def TAB_def)
  show ?case
  proof (cases "c = TAB")
    case True
    then have "re_split_from cur (c # cs) = cur # re_split_from [] cs" by simp
    with "2.IH"(1) [OF True] sp True show ?thesis
      by (simp add: re_sub_ws_join_Cons re_split_from_nonempty re_sub_ws_append re_sub_ws_space)
  next
    case nt: False
    show ?thesis
    proof (cases "c = SPACE \<and> cs \<noteq> [] \<and> hd cs = SPACE")
      case True
      with nt have "re_split_from cur (c # cs) =
          cur # re_split_from [] (dropWhile (\<lambda>d. d = SPACE) cs)"
        by auto
      with "2.IH"(2) [OF nt True] sp True show ?thesis
        by (simp add: re_sub_ws_join_Cons re_split_from_nonempty re_sub_ws_append
            re_sub_ws_space re_sub_ws_spaces)
    next
      case False
      with nt have "re_split_from cur (c # cs) = re_split_from (cur @ [c]) cs"
        by auto
      with "2.IH"(3) [OF nt False] show ?thesis by simp
    qed
  qed
qed

lemma strip_ends:
  assumes ne: "strip s \<noteq> []"
  shows "\<not> isspace (hd (strip s)) \<and> \<not> isspace (last (strip s))"
proof -
  let ?a = "dropWhile isspace s"
  let ?b = "dropWhile isspace (rev ?a)"
  from ne have b: "?b \<noteq> []" by (simp add: strip_def)
  then have hb: "\<not> isspace (hd ?b)" by (rule hd_dropWhile)
  have a: "?a \<noteq> []"
  proof
    assume e: "?a = []"
    have "?b = []" unfolding e by simp
    with b show False by (rule notE)
  qed
  then have ha: "\<not> isspace (hd ?a)" by (rule hd_dropWhile)
  have "rev ?a = takeWhile isspace (rev ?a) @ ?b" by simp
  then have "last (rev ?a) = last (takeWhile isspace (rev ?a) @ ?b)" by simp
  also have "\<dots> = last ?b" using b by (rule last_appendR)
  finally have lb: "last ?b = hd ?a" using a by (simp add: last_rev)
  have 1: "hd (strip s) = last ?b" unfolding strip_def by (rule hd_rev)
  have 2: "last (strip s) = hd ?b" unfolding strip_def by (rule last_rev)
  from ha hb show ?thesis unfolding 1 2 lb by simp
qed

lemma set_strip: "set (strip s) \<subseteq> set s"
proof -
  have "set (strip s) = set (dropWhile isspace (rev (dropWhile isspace s)))"
    by (simp add: strip_def)
  also have "\<dots> \<subseteq> set (rev (dropWhile isspace s))"
    by (auto dest: set_dropWhileD)
  also have "\<dots> \<subseteq> set s"
    by (auto dest: set_dropWhileD)
  finally show ?thesis .
qed

lemma quote_free_rows_stable:
  assumes qf: "\<forall>line \<in> set content. QUOTE \<notin> set line"
    and row: "row \<in> set (table_of (process_file_content content h))"
  shows "stable_row h row"
proof -
  from table_origin [OF row] obtain line where
    line: "line \<in> set content" and
    nh: "re_sub_ws (strip line) \<noteq> re_sub_ws h" and
    len: "length (re_split (strip line)) = 5" and
    r: "row = map replace_quote (re_split (strip line))"
    by blast
  let ?s = "strip line"
  from qf line set_strip [of line] have q: "QUOTE \<notin> set ?s" by auto
  have "replace_quote p = p" if "p \<in> set (re_split ?s)" for p
  proof -
    from that re_split_from_chars [of p "[]" ?s] have "set p \<subseteq> set ?s"
      by (simp add: re_split_def)
    with q have "QUOTE \<notin> set p" by auto
    then show ?thesis by (rule replace_quote_id)
  qed
  then have rr: "row = re_split_from [] ?s"
    unfolding r by (simp add: map_idI re_split_def)
  have ne: "?s \<noteq> []"
  proof
    assume "?s = []"
    with len show False by (simp add: re_split_def)
  qed
  from strip_ends [OF ne] have e1: "\<not> isspace (hd ?s)" and e2: "\<not> isspace (last ?s)"
    by simp_all
  have sp: "isspace SPACE" "isspace TAB" by (simp_all add: isspace_def SPACE_def TAB_def)
  from ne obtain c cs where cs: "?s = c # cs" by (cases ?s) auto
  with e1 sp have c: "c \<noteq> TAB" "c \<noteq> SPACE" by auto
  then have "re_split_from [] ?s = re_split_from [c] cs"
    unfolding cs by simp
  with re_split_from_hd [of "[c]" cs] obtain t where "hd row = [c] @ t"
    unfolding rr by auto
  with cs e1 have first: "hd row \<noteq> []" "\<not> isspace (hd (hd row))" by simp_all
  from e2 sp have "last ?s \<noteq> TAB" "last ?s \<noteq> SPACE" by auto
  from re_split_from_last [OF ne this, of "[]"] e2
  have lst: "last row \<noteq> []" "\<not> isspace (last (last row))"
    unfolding rr by simp_all
  have ds: "list_all (\<lambda>field. \<not> double_space field) row"
    unfolding rr list_all_iff using re_split_from_no_double_space [of "[]" ?s] by auto
  have "re_sub_ws (join_tab row) = re_sub_ws ?s"
    unfolding rr using re_sub_ws_split [of "[]" ?s] by simp
  with nh have hdr: "re_sub_ws (join_tab row) \<noteq> re_sub_ws h" by simp
  have "row \<noteq> []" unfolding rr by (rule re_split_from_nonempty)
  with first lst ds hdr show ?thesis by (simp add: stable_row_def)
qed

text \<open>
  C5, as the code has it. The double quotes are removed after the split, so a row can hold
  what no line of fields holds: an empty first or last field, a field that starts or ends
  the line with a blank, two spaces in a row inside a field, or the header's labels. Such
  a row is written but not read back. When every accepted row is free of these (it is a
  \<open>stable_row\<close>), the converter's output lines, given to \<open>process_file_content\<close> again,
  yield the same output lines and the same rows, and nothing is skipped. The rows of an
  input without double quotes are all stable.
\<close>

theorem round_trip_of_stable_rows:
  assumes "\<forall>row \<in> set (table_of (process_file_content content h)). stable_row h row"
  shows "process_file_content (cleaned_of (process_file_content content h)) h =
           (cleaned_of (process_file_content content h), [],
            table_of (process_file_content content h))"
proof -
  let ?rows = "table_of (process_file_content content h)"
  have "\<forall>row \<in> set ?rows. length row = 5 \<and> (\<forall>f \<in> set row. TAB \<notin> set f \<and> QUOTE \<notin> set f) \<and>
             stable_row h row"
    using assms table_row_shape [of _ content h] by blast
  from output_lines_read_again [OF this] show ?thesis
    by (simp add: cleaned_from_table [of content h])
qed

theorem round_trip_of_stable_rows_witness:
  "process_file_content
     [[QUOTE] @ ascii ''001'' @ [QUOTE, TAB, QUOTE] @ ascii ''Nowak'' @ [QUOTE] @ ascii ''   Jan'' @
        [TAB] @ ascii ''IT'' @ [TAB] @ ascii ''Lead Dev'' @ [NEWLINE],
      header_literal @ [NEWLINE],
      ascii ''002'' @ [TAB] @ ascii ''Kowal'' @ [NEWLINE]] header_literal =
     ([ascii ''001'' @ [TAB] @ ascii ''Nowak'' @ [TAB] @ ascii ''Jan'' @ [TAB] @ ascii ''IT'' @
         [TAB] @ ascii ''Lead Dev'' @ [NEWLINE]],
      [header_literal, ascii ''002'' @ [TAB] @ ascii ''Kowal''],
      [[ascii ''001'', ascii ''Nowak'', ascii ''Jan'', ascii ''IT'', ascii ''Lead Dev'']]) \<and>
   stable_row header_literal
     [ascii ''001'', ascii ''Nowak'', ascii ''Jan'', ascii ''IT'', ascii ''Lead Dev''] \<and>
   process_file_content
     [ascii ''001'' @ [TAB] @ ascii ''Nowak'' @ [TAB] @ ascii ''Jan'' @ [TAB] @ ascii ''IT'' @
         [TAB] @ ascii ''Lead Dev'' @ [NEWLINE]] header_literal =
     ([ascii ''001'' @ [TAB] @ ascii ''Nowak'' @ [TAB] @ ascii ''Jan'' @ [TAB] @ ascii ''IT'' @
         [TAB] @ ascii ''Lead Dev'' @ [NEWLINE]],
      [],
      [[ascii ''001'', ascii ''Nowak'', ascii ''Jan'', ascii ''IT'', ascii ''Lead Dev'']])"
proof -
  let ?content = "[[QUOTE] @ ascii ''001'' @ [QUOTE, TAB, QUOTE] @ ascii ''Nowak'' @ [QUOTE] @
        ascii ''   Jan'' @ [TAB] @ ascii ''IT'' @ [TAB] @ ascii ''Lead Dev'' @ [NEWLINE],
      header_literal @ [NEWLINE],
      ascii ''002'' @ [TAB] @ ascii ''Kowal'' @ [NEWLINE]]"
  let ?out = "ascii ''001'' @ [TAB] @ ascii ''Nowak'' @ [TAB] @ ascii ''Jan'' @ [TAB] @ ascii ''IT'' @
         [TAB] @ ascii ''Lead Dev'' @ [NEWLINE]"
  let ?row = "[ascii ''001'', ascii ''Nowak'', ascii ''Jan'', ascii ''IT'', ascii ''Lead Dev'']"
  have p: "process_file_content ?content header_literal =
     ([?out], [header_literal, ascii ''002'' @ [TAB] @ ascii ''Kowal''], [?row])"
    by (simp add: text_defs loop_defs)
  have s: "stable_row header_literal ?row"
    by (simp add: stable_row_def text_defs)
  have "\<forall>row \<in> set (table_of (process_file_content ?content header_literal)).
          stable_row header_literal row"
    unfolding p using s by (simp add: table_of_def)
  from round_trip_of_stable_rows [OF this]
  have r: "process_file_content [?out] header_literal = ([?out], [], [?row])"
    unfolding p by (simp add: cleaned_of_def table_of_def)
  show ?thesis
    by (intro conjI) (rule p, rule s, rule r)
qed

theorem round_trip_counterexample:
  "process_file_content
     [[QUOTE, QUOTE, TAB] @ ascii ''Nowak'' @ [TAB] @ ascii ''Jan'' @ [TAB] @ ascii ''IT'' @
        [TAB] @ ascii ''Dev'' @ [NEWLINE]] header_literal =
     ([[TAB] @ ascii ''Nowak'' @ [TAB] @ ascii ''Jan'' @ [TAB] @ ascii ''IT'' @ [TAB] @
         ascii ''Dev'' @ [NEWLINE]],
      [],
      [[[], ascii ''Nowak'', ascii ''Jan'', ascii ''IT'', ascii ''Dev'']]) \<and>
   process_file_content
     [[TAB] @ ascii ''Nowak'' @ [TAB] @ ascii ''Jan'' @ [TAB] @ ascii ''IT'' @ [TAB] @
         ascii ''Dev'' @ [NEWLINE]] header_literal =
     ([],
      [ascii ''Nowak'' @ [TAB] @ ascii ''Jan'' @ [TAB] @ ascii ''IT'' @ [TAB] @ ascii ''Dev''],
      [])"
  by (simp add: text_defs loop_defs)

end
